theory Spec2Isabelle
  imports Complex_Main "HOL-Library.AList"
begin

section \<open>Constants\<close>

text \<open>
  The thirteen pitches of the grid, C5 at the top and C4 at the bottom, the labels shown
  on the graph nodes, and the number of steps of the loop.
\<close>

definition NOTES :: "string list" where
  "NOTES = [''C5'', ''B4'', ''A#4'', ''A4'', ''G#4'', ''G4'', ''F#4'', ''F4'', ''E4'',
            ''D#4'', ''D4'', ''C#4'', ''C4'']"

definition NOTE_LABELS :: "string list" where
  "NOTE_LABELS = [''C5'', ''B'', ''A#'', ''A'', ''G#'', ''G'', ''F#'', ''F'', ''E'',
                  ''D#'', ''D'', ''C#'', ''C4'']"

definition STEPS :: nat where
  "STEPS = 16"

definition NODE_STACK_SPACING :: real where
  "NODE_STACK_SPACING = 52"

section \<open>Strings of numbers\<close>

text \<open>
  A template literal such as \<^verbatim>\<open>`${note}@${step}`\<close> writes a non-negative integer in
  decimal, without leading zeros.
\<close>

definition digit_char :: "nat \<Rightarrow> char" where
  "digit_char d = ''0123456789'' ! d"

fun string_of_nat :: "nat \<Rightarrow> string" where
  "string_of_nat n =
     (if n < 10 then [digit_char n] else string_of_nat (n div 10) @ [digit_char (n mod 10)])"

declare string_of_nat.simps [simp del]

text \<open>\<^verbatim>\<open>const eventId = (note, step) => `${note}@${step}`\<close>\<close>

definition eventId :: "string \<Rightarrow> nat \<Rightarrow> string" where
  "eventId note step = note @ ''@'' @ string_of_nat step"

section \<open>The grid and the chord groups\<close>

text \<open>
  \<^verbatim>\<open>grid[note][step]\<close>: an object with one array of booleans for each pitch. The object
  gets its thirteen keys once, at start-up, and no key is added or removed afterwards,
  so it is a total function on the pitch names here. A read beyond the end of an array
  gives \<^verbatim>\<open>undefined\<close>, which a condition takes as false.
\<close>

type_synonym grid = "string \<Rightarrow> bool list"

definition cell :: "grid \<Rightarrow> string \<Rightarrow> nat \<Rightarrow> bool" where
  "cell G n s = (s < length (G n) \<and> G n ! s)"

definition emptyGrid :: grid where
  "emptyGrid = (\<lambda>note. replicate STEPS False)"

text \<open>The value stored in the map \<^verbatim>\<open>chordGroups\<close> for one step.\<close>

record group =
  chordNotes :: "string list"  \<comment> \<open>the field \<^verbatim>\<open>notes\<close>\<close>
  nodeIds :: "string list"
  anchor :: string
  anchorId :: string

text \<open>
  A JavaScript \<^verbatim>\<open>Map\<close> keeps its keys in insertion order: an association list, where
  \<^verbatim>\<open>set\<close> replaces the value of a key that is present and appends a new key at the end
  (\<^const>\<open>AList.update\<close>), \<^verbatim>\<open>get\<close> is \<^const>\<open>map_of\<close> and \<^verbatim>\<open>has\<close> asks whether
  \<^const>\<open>map_of\<close> finds the key.
\<close>

type_synonym groups = "(nat \<times> group) list"

definition has :: "('k \<times> 'v) list \<Rightarrow> 'k \<Rightarrow> bool" where
  "has m k = (map_of m k \<noteq> None)"

text \<open>The body of the loop of \<^verbatim>\<open>buildChordGroups\<close>, for the step \<open>s\<close>.\<close>

definition groupStep :: "grid \<Rightarrow> nat \<Rightarrow> groups \<Rightarrow> groups" where
  "groupStep G s gs =
     (let notesAtStep = filter (\<lambda>n. cell G n s) NOTES in
      if length notesAtStep > 0 then
        (let ids = map (\<lambda>n. eventId n s) notesAtStep;
             aId = ids ! (length ids - 1)
         in AList.update s
              \<lparr>chordNotes = notesAtStep, nodeIds = ids,
               anchor = notesAtStep ! (length notesAtStep - 1), anchorId = aId\<rparr> gs)
      else gs)"

definition buildChordGroups :: "grid \<Rightarrow> groups" where
  "buildChordGroups G = fold (groupStep G) [0..<STEPS] []"

section \<open>The step order\<close>

text \<open>
  \<^verbatim>\<open>getStepArray(mode)\<close>. The mode is a string; every string other than
  \<^verbatim>\<open>'reverse'\<close> and \<^verbatim>\<open>'pingpong'\<close> gives the forward order.
\<close>

definition getStepArray :: "string \<Rightarrow> nat list" where
  "getStepArray mode =
     (let fwd = [0..<STEPS] in
      if mode = ''reverse'' then rev fwd
      else if mode = ''pingpong'' then fwd @ rev fwd
      else fwd)"

section \<open>The graph\<close>

text \<open>
  The part of the Cytoscape instance \<^verbatim>\<open>cy\<close> that the program reads and writes: the nodes
  by id, each with its label, classes, position, the opacity set through
  \<^verbatim>\<open>style('opacity', v)\<close> (\<open>None\<close>: the stylesheet's value) and the animation running
  on it (its target position and its duration in milliseconds); the edges; the size of
  the container; and the paddings of the calls of \<^verbatim>\<open>cy.fit\<close>, oldest first. Positions
  and durations are real numbers: the rounding of IEEE doubles is not modelled.
\<close>

type_synonym point = "real \<times> real"

record node =
  label :: "string option"
  classes :: "string list"
  position :: point
  opacity :: "real option"
  animation :: "(point \<times> real) option"

record edge =
  eid :: string
  source :: string
  target :: string
  distSteps :: "int option"  \<comment> \<open>the data field \<^verbatim>\<open>dist\<close>\<close>
  seqIdx :: "nat option"
  etype :: string

record graph =
  nodes :: "string \<rightharpoonup> node"
  edges :: "edge list"
  clientWidth :: nat
  clientHeight :: nat
  fits :: "nat list"

definition BALL :: string where
  "BALL = ''__ball__''"

text \<open>
  A call on the collection \<^verbatim>\<open>cy.getElementById(i)\<close> changes the node with that id and
  does nothing when there is none.
\<close>

definition updNode :: "string \<Rightarrow> (node \<Rightarrow> node) \<Rightarrow> graph \<Rightarrow> graph" where
  "updNode i f g =
     (case nodes g i of None \<Rightarrow> g | Some nd \<Rightarrow> g\<lparr>nodes := (nodes g)(i \<mapsto> f nd)\<rparr>)"

definition removeClass :: "string \<Rightarrow> string \<Rightarrow> graph \<Rightarrow> graph" where
  "removeClass c i = updNode i (\<lambda>nd. nd\<lparr>classes := removeAll c (classes nd)\<rparr>)"

definition addClass :: "string \<Rightarrow> string \<Rightarrow> graph \<Rightarrow> graph" where
  "addClass c i =
     updNode i (\<lambda>nd. if c \<in> set (classes nd) then nd else nd\<lparr>classes := classes nd @ [c]\<rparr>)"

definition setPosition :: "string \<Rightarrow> point \<Rightarrow> graph \<Rightarrow> graph" where
  "setPosition i p = updNode i (\<lambda>nd. nd\<lparr>position := p\<rparr>)"

definition setOpacity :: "string \<Rightarrow> real \<Rightarrow> graph \<Rightarrow> graph" where
  "setOpacity i v = updNode i (\<lambda>nd. nd\<lparr>opacity := Some v\<rparr>)"

definition stopNode :: "string \<Rightarrow> graph \<Rightarrow> graph" where
  "stopNode i = updNode i (\<lambda>nd. nd\<lparr>animation := None\<rparr>)"

definition animate :: "string \<Rightarrow> point \<Rightarrow> real \<Rightarrow> graph \<Rightarrow> graph" where
  "animate i p d = updNode i (\<lambda>nd. nd\<lparr>animation := Some (p, d)\<rparr>)"

definition fit :: "nat \<Rightarrow> graph \<Rightarrow> graph" where
  "fit padding g = g\<lparr>fits := fits g @ [padding]\<rparr>"

text \<open>\<^verbatim>\<open>ball.stop(); ball.style('opacity', 0)\<close>, guarded by \<^verbatim>\<open>ball.length\<close>.\<close>

definition hideBall :: "graph \<Rightarrow> graph" where
  "hideBall g = (if nodes g BALL \<noteq> None then setOpacity BALL 0 (stopNode BALL g) else g)"

section \<open>Arrays\<close>

text \<open>
  \<^verbatim>\<open>indexOf\<close> gives the first index of an element, or \<open>-1\<close>; \<^verbatim>\<open>%\<close> is the remainder of
  the truncated division, with the sign of the dividend; a read \<^verbatim>\<open>a[i]\<close> outside the
  array gives \<^verbatim>\<open>undefined\<close>, here \<open>None\<close>.
\<close>

fun indexOf :: "'a list \<Rightarrow> 'a \<Rightarrow> int" where
  "indexOf [] x = - 1"
| "indexOf (y # ys) x = (if y = x then 0 else (let r = indexOf ys x in if r < 0 then - 1 else r + 1))"

definition js_rem :: "int \<Rightarrow> int \<Rightarrow> int" where
  "js_rem a b = sgn a * (\<bar>a\<bar> mod \<bar>b\<bar>)"

definition elemAt :: "'a list \<Rightarrow> int \<Rightarrow> 'a option" where
  "elemAt xs i = (if 0 \<le> i \<and> i < int (length xs) then Some (xs ! nat i) else None)"

section \<open>The state of the program\<close>

text \<open>
  The module's variables, with the parts of the collaborators that the program changes:
  the tempo and the running flag of \<^verbatim>\<open>Tone.Transport\<close>, the ids of its repeated events
  and the next id it hands out, and the step whose cells carry the class
  \<^verbatim>\<open>playhead\<close>. The synthesizer's signal chain is left out.
\<close>

record state =
  grid :: grid
  chordGroups :: groups
  stepSequence :: "(nat \<times> group) list"
  loop :: "nat option"
  cy :: "graph option"
  isPlaying :: bool
  prevPlayingNodes :: "string list"
  playbackMode :: string
  pendingPlaybackMode :: "string option"
  activeStepArray :: "nat list"
  seqPosition :: nat
  bpm :: real
  transportStarted :: bool
  transportEvents :: "nat list"
  transportNextId :: nat
  playhead :: "nat option"

section \<open>The sequencer\<close>

text \<open>
  \<^verbatim>\<open>buildLoop\<close>: clear the repeated event if there is one, set the step order of the
  current mode, go back to position 0 and schedule the tick again.
\<close>

definition buildLoop :: "state \<Rightarrow> state" where
  "buildLoop s =
     (let s1 = (case loop s of
                  None \<Rightarrow> s
                | Some i \<Rightarrow> s\<lparr>transportEvents := removeAll i (transportEvents s), loop := None\<rparr>);
          s2 = s1\<lparr>activeStepArray := getStepArray (playbackMode s1), seqPosition := 0\<rparr>
      in s2\<lparr>loop := Some (transportNextId s2),
            transportEvents := transportEvents s2 @ [transportNextId s2],
            transportNextId := transportNextId s2 + 1\<rparr>)"

text \<open>
  What one tick sends to the collaborators: \<^verbatim>\<open>synth.triggerAttackRelease(notes, '16n',
  time, velocity)\<close> and \<^verbatim>\<open>scheduleVisual\<close> of the callback that highlights \<open>step\<close> and
  calls \<^verbatim>\<open>updateGraphPlayhead(step, nextGridStep)\<close>, at \<open>time\<close>.
\<close>

datatype effect =
  TriggerAttackRelease "string list" string real real
  | ScheduleVisual nat nat real

text \<open>The start of the tick: at position 0 a queued mode becomes the mode.\<close>

definition applyPending :: "state \<Rightarrow> state" where
  "applyPending s =
     (if seqPosition s = 0 then
        (case pendingPlaybackMode s of
           None \<Rightarrow> s
         | Some m \<Rightarrow> s\<lparr>playbackMode := m, pendingPlaybackMode := None,
                        activeStepArray := getStepArray m\<rparr>)
      else s)"

text \<open>
  The callback of \<^verbatim>\<open>scheduleRepeat\<close>. A position outside the step order would read
  \<^verbatim>\<open>undefined\<close> as the step (and on an empty order make the position \<^verbatim>\<open>NaN\<close>): the
  result is \<open>None\<close> there.
\<close>

definition tick :: "real \<Rightarrow> state \<Rightarrow> (state \<times> effect list) option" where
  "tick time s0 =
     (let s = applyPending s0 in
      if length (activeStepArray s) \<le> seqPosition s then None
      else
        (let step = activeStepArray s ! seqPosition s;
             nextPos = (seqPosition s + 1) mod length (activeStepArray s);
             nextGridStep = activeStepArray s ! nextPos;
             s' = s\<lparr>seqPosition := nextPos\<rparr>;
             activeNotes = filter (\<lambda>n. cell (grid s') n step) NOTES;
             audio = (if length activeNotes > 0
                      then [TriggerAttackRelease activeNotes ''16n'' time
                              (1 / sqrt (real (length activeNotes)))]
                      else [])
         in Some (s', audio @ [ScheduleVisual step nextGridStep time])))"

text \<open>Ticks one after the other, at the given times; the effects are dropped.\<close>

fun ticks :: "real list \<Rightarrow> state \<Rightarrow> state option" where
  "ticks [] s = Some s"
| "ticks (t # ts) s = (case tick t s of None \<Rightarrow> None | Some (s', effs) \<Rightarrow> ticks ts s')"

definition initSynth :: "state \<Rightarrow> state" where
  "initSynth s = buildLoop s"

definition setPlaybackMode :: "string \<Rightarrow> state \<Rightarrow> state" where
  "setPlaybackMode mode s =
     (if isPlaying s then s\<lparr>pendingPlaybackMode := Some mode\<rparr>
      else buildLoop (s\<lparr>playbackMode := mode\<rparr>))"

text \<open>
  \<^verbatim>\<open>play\<close>, taken as one step. The argument is the value of
  \<^verbatim>\<open>Number(document.getElementById('bpm').value)\<close>, \<open>None\<close> for \<^verbatim>\<open>NaN\<close>.
\<close>

definition play :: "real option \<Rightarrow> state \<Rightarrow> state" where
  "play field s =
     (if isPlaying s then s
      else s\<lparr>bpm := (case field of None \<Rightarrow> 120 | Some v \<Rightarrow> if v = 0 then 120 else v),
             transportStarted := True, isPlaying := True\<rparr>)"

definition stop :: "state \<Rightarrow> state" where
  "stop s =
     (if \<not> isPlaying s then s
      else
        (let s1 = s\<lparr>transportStarted := False, isPlaying := False, seqPosition := 0\<rparr>;
             s2 = (case pendingPlaybackMode s1 of
                     None \<Rightarrow> s1
                   | Some m \<Rightarrow> buildLoop (s1\<lparr>playbackMode := m, pendingPlaybackMode := None\<rparr>));
             s3 = s2\<lparr>playhead := None\<rparr>;
             s4 = (case cy s3 of
                     None \<Rightarrow> s3\<lparr>prevPlayingNodes := []\<rparr>
                   | Some g \<Rightarrow>
                       s3\<lparr>cy := Some (fold (removeClass ''playing'') (prevPlayingNodes s3) g),
                          prevPlayingNodes := []\<rparr>)
         in (case cy s4 of None \<Rightarrow> s4 | Some g \<Rightarrow> s4\<lparr>cy := Some (hideBall g)\<rparr>)))"

text \<open>
  \<^verbatim>\<open>parseInt(val, 10)\<close> on a string: leading white space is skipped, one sign is read,
  then the longest run of decimal digits; no digit gives \<^verbatim>\<open>NaN\<close>, here \<open>None\<close>. The white
  space is the ASCII one, and the value is the integer itself, not its nearest double.
\<close>

definition isWhiteSpace :: "char \<Rightarrow> bool" where
  "isWhiteSpace c = (of_char c \<in> {9, 10, 11, 12, 13, 32 :: nat})"

definition isDigit :: "char \<Rightarrow> bool" where
  "isDigit c = (48 \<le> (of_char c :: nat) \<and> (of_char c :: nat) \<le> 57)"

definition digitsValue :: "string \<Rightarrow> int" where
  "digitsValue ds = foldl (\<lambda>a c. 10 * a + (int (of_char c) - 48)) 0 ds"

definition parseInt10 :: "string \<Rightarrow> int option" where
  "parseInt10 str =
     (let S = dropWhile isWhiteSpace str;
          neg = (S \<noteq> [] \<and> hd S = CHR ''-'');
          S' = (if S \<noteq> [] \<and> (hd S = CHR ''+'' \<or> hd S = CHR ''-'') then tl S else S);
          Z = takeWhile isDigit S'
      in if Z = [] then None
         else Some (if neg then - digitsValue Z else digitsValue Z))"

definition setBPM :: "string \<Rightarrow> state \<Rightarrow> state" where
  "setBPM val s =
     (case parseInt10 val of
        None \<Rightarrow> s
      | Some b \<Rightarrow> if b > 0 then s\<lparr>bpm := real_of_int b\<rparr> else s)"

section \<open>The layout\<close>

text \<open>The angle of a step: step 0 at 12 o'clock, clockwise.\<close>

definition stepAngle :: "nat \<Rightarrow> real" where
  "stepAngle step = - pi / 2 + (real step / real STEPS) * 2 * pi"

text \<open>
  One chord of \<^verbatim>\<open>snapChordStacks\<close>: the members of the stack go outwards from the
  anchor's position along the direction of the step. Reading the position of an anchor
  that is not in the graph throws a \<^verbatim>\<open>TypeError\<close>: the result is \<open>None\<close>.
\<close>

definition snapStack :: "nat \<Rightarrow> group \<Rightarrow> graph \<Rightarrow> graph option" where
  "snapStack step grp g =
     (if length (nodeIds grp) \<le> 1 then Some g
      else
        (case nodes g (anchorId grp) of
           None \<Rightarrow> None
         | Some a \<Rightarrow>
             (let ax = fst (position a); ay = snd (position a);
                  angle = stepAngle step; dx = cos angle; dy = sin angle
              in Some (fold (\<lambda>(i, ident) g'.
                         (let stepsOut = real (length (nodeIds grp) - 1 - i)
                          in setPosition ident
                               (ax + stepsOut * NODE_STACK_SPACING * dx,
                                ay + stepsOut * NODE_STACK_SPACING * dy) g'))
                       (List.enumerate 0 (nodeIds grp)) g))))"

fun snapChordStacks :: "groups \<Rightarrow> graph \<Rightarrow> graph option" where
  "snapChordStacks [] g = Some g"
| "snapChordStacks ((step, grp) # rest) g =
     (case snapStack step grp g of None \<Rightarrow> None | Some g' \<Rightarrow> snapChordStacks rest g')"

text \<open>\<^verbatim>\<open>cy.container().clientWidth || 400\<close> and \<^verbatim>\<open>cy.container().clientHeight || 380\<close>.\<close>

definition containerW :: "graph \<Rightarrow> real" where
  "containerW g = (if clientWidth g = 0 then 400 else real (clientWidth g))"

definition containerH :: "graph \<Rightarrow> real" where
  "containerH g = (if clientHeight g = 0 then 380 else real (clientHeight g))"

text \<open>The radius of the circle of anchors for \<open>n\<close> chords.\<close>

definition layoutRadius :: "graph \<Rightarrow> nat \<Rightarrow> real" where
  "layoutRadius g n =
     (let containerMin = min (containerW g) (containerH g);
          baseR = containerMin * 0.28;
          minR = (if n > 1 then (38 + 8) / (2 * sin (pi / real n)) else 0)
      in max baseR minR)"

definition anchorPosition :: "graph \<Rightarrow> nat \<Rightarrow> nat \<Rightarrow> point" where
  "anchorPosition g n step =
     (let r = layoutRadius g n; cx = containerW g / 2; cy_center = containerH g / 2;
          angle = stepAngle step
      in (cx + r * cos angle, cy_center + r * sin angle))"

definition positionNodes :: "(nat \<times> group) list \<Rightarrow> groups \<Rightarrow> graph \<Rightarrow> graph option" where
  "positionNodes seq cgs g =
     (let n = length seq;
          g1 = fold (\<lambda>(step, grp) g'. setPosition (anchorId grp) (anchorPosition g n step) g')
                 seq g
      in (case snapChordStacks cgs g1 of None \<Rightarrow> None | Some g2 \<Rightarrow> Some (fit 40 g2)))"

text \<open>\<^verbatim>\<open>fitGraph\<close>; \<^verbatim>\<open>cy.resize()\<close> makes Cytoscape read the container's size again.\<close>

definition fitGraph :: "state \<Rightarrow> state option" where
  "fitGraph s =
     (case cy s of
        None \<Rightarrow> Some s
      | Some g \<Rightarrow>
          (case positionNodes (stepSequence s) (chordGroups s) g of
             None \<Rightarrow> None
           | Some g' \<Rightarrow> Some (s\<lparr>cy := Some g'\<rparr>)))"

section \<open>The graph follows the grid\<close>

text \<open>The loop that fills \<^verbatim>\<open>stepSequence\<close>: the chord groups in the order of the steps.\<close>

definition buildStepSequence :: "groups \<Rightarrow> (nat \<times> group) list" where
  "buildStepSequence cgs =
     fold (\<lambda>s acc. (case map_of cgs s of None \<Rightarrow> acc | Some grp \<Rightarrow> acc @ [(s, grp)]))
       [0..<STEPS] []"

text \<open>
  The stale event nodes go, the others lose the class \<^verbatim>\<open>playing\<close>; the ball is passed
  over.
\<close>

definition removeStale :: "string list \<Rightarrow> graph \<Rightarrow> graph" where
  "removeStale activeIds g =
     g\<lparr>nodes := (\<lambda>i. if i = BALL then nodes g i
                       else if i \<in> set activeIds
                       then map_option (\<lambda>nd. nd\<lparr>classes := removeAll ''playing'' (classes nd)\<rparr>)
                              (nodes g i)
                       else None)\<rparr>"

text \<open>
  The new event nodes of one chord, each at the seed position of its step. The two
  arrays \<^verbatim>\<open>notes\<close> and \<^verbatim>\<open>nodeIds\<close> of a group have the same length, so that
  \<^verbatim>\<open>nodeIds[i]\<close> for the \<open>i\<close>-th note is read through \<^const>\<open>zip\<close>.
\<close>

definition addEventNode :: "real \<Rightarrow> nat \<Rightarrow> string \<Rightarrow> string \<Rightarrow> graph \<Rightarrow> graph" where
  "addEventNode r step note ident g =
     (if nodes g ident = None then
        (let ni = indexOf NOTES note;
             angle = (real step / real STEPS) * 2 * pi - pi / 2
         in g\<lparr>nodes := (nodes g)(ident \<mapsto>
                \<lparr>label = elemAt NOTE_LABELS ni, classes = [],
                 position = (containerW g / 2 + r * cos angle,
                             containerH g / 2 + r * sin angle),
                 opacity = None, animation = None\<rparr>)\<rparr>)
      else g)"

definition addEventNodes :: "real \<Rightarrow> nat \<Rightarrow> group \<Rightarrow> graph \<Rightarrow> graph" where
  "addEventNodes r step grp g =
     fold (\<lambda>(note, ident). addEventNode r step note ident) (zip (chordNotes grp) (nodeIds grp)) g"

definition stackEdges :: "groups \<Rightarrow> edge list" where
  "stackEdges cgs =
     concat (map (\<lambda>(step, grp).
        map (\<lambda>i. \<lparr>eid = ''stack-'' @ string_of_nat step @ ''-'' @ string_of_nat i,
                   source = nodeIds grp ! i, target = nodeIds grp ! (i + 1),
                   distSteps = None, seqIdx = None, etype = ''chord-stack''\<rparr>)
          [0..<length (nodeIds grp) - 1]) cgs)"

definition seqEdges :: "(nat \<times> group) list \<Rightarrow> edge list" where
  "seqEdges seq =
     (if length seq \<ge> 2 then
        (let n = length seq in
         map (\<lambda>(i, (step, grp)).
           (let nxt = seq ! ((i + 1) mod n);
                d = (if i < n - 1 then int (fst nxt) - int step
                     else (int STEPS - int step) + int (fst nxt))
            in \<lparr>eid = ''seq-'' @ string_of_nat i,
                source = anchorId grp, target = anchorId (snd nxt),
                distSteps = Some (max d 1), seqIdx = Some i, etype = ''sequence''\<rparr>))
           (List.enumerate 0 seq))
      else [])"

definition updateGraph :: "state \<Rightarrow> state option" where
  "updateGraph s =
     (case cy s of
        None \<Rightarrow> Some s
      | Some g \<Rightarrow>
          (let cgs = buildChordGroups (grid s);
               seq = buildStepSequence cgs;
               activeIds = remdups (concat (map (\<lambda>(step, grp). nodeIds grp) cgs));
               g1 = hideBall (g\<lparr>edges := []\<rparr>);
               g2 = removeStale activeIds g1;
               r = min (containerW g2) (containerH g2) * 0.35;
               g3 = fold (\<lambda>(step, grp). addEventNodes r step grp) cgs g2;
               s1 = s\<lparr>chordGroups := cgs, stepSequence := seq, prevPlayingNodes := []\<rparr>
           in if length activeIds = 0 then Some (s1\<lparr>cy := Some g3\<rparr>)
              else
                (case positionNodes seq cgs (g3\<lparr>edges := stackEdges cgs @ seqEdges seq\<rparr>) of
                   None \<Rightarrow> None
                 | Some g4 \<Rightarrow> Some (s1\<lparr>cy := Some g4\<rparr>))))"

text \<open>
  \<^verbatim>\<open>grid[note][step] = !grid[note][step]\<close>; a write beyond the end would make the array
  longer, the holes reading as false. The class \<^verbatim>\<open>active\<close> of the cell is left out.
\<close>

definition toggleCell :: "string \<Rightarrow> nat \<Rightarrow> grid \<Rightarrow> grid" where
  "toggleCell note step G =
     G(note := (if step < length (G note) then (G note)[step := \<not> G note ! step]
                else G note @ replicate (step - length (G note)) False @ [True]))"

definition onCellClick :: "string \<Rightarrow> nat \<Rightarrow> state \<Rightarrow> state option" where
  "onCellClick note step s = updateGraph (s\<lparr>grid := toggleCell note step (grid s)\<rparr>)"

definition clearGrid :: "grid \<Rightarrow> grid" where
  "clearGrid G =
     (\<lambda>note. if note \<in> set NOTES then replicate STEPS False @ drop STEPS (G note) else G note)"

definition clearAll :: "state \<Rightarrow> state option" where
  "clearAll s = updateGraph (s\<lparr>grid := clearGrid (grid s)\<rparr>)"

section \<open>The traversal of the graph\<close>

text \<open>
  The search of \<^verbatim>\<open>updateGraphPlayhead\<close> for the next chord, from the index \<open>i\<close> on:
  the group found and \<open>dist\<close>, or \<open>None\<close> when the loop ends with \<^verbatim>\<open>tgtGroup\<close> still
  \<^verbatim>\<open>null\<close>.
\<close>

function findTarget :: "groups \<Rightarrow> nat list \<Rightarrow> int \<Rightarrow> nat \<Rightarrow> (group \<times> nat) option" where
  "findTarget cgs arr seqPos i =
     (if i < length arr then
        (case elemAt arr (js_rem (seqPos + int i) (int (length arr))) of
           None \<Rightarrow> findTarget cgs arr seqPos (i + 1)
         | Some gs \<Rightarrow>
             (case map_of cgs gs of
                None \<Rightarrow> findTarget cgs arr seqPos (i + 1)
              | Some grp \<Rightarrow> Some (grp, i + 1)))
      else None)"
  by pat_completeness auto
termination
  by (relation "measure (\<lambda>(cgs, arr, seqPos, i). length arr - i)") auto

declare findTarget.simps [simp del]

text \<open>The nodes of the current chord that are in the graph get the class \<^verbatim>\<open>playing\<close>.\<close>

definition highlightNode :: "string \<Rightarrow> graph \<times> string list \<Rightarrow> graph \<times> string list" where
  "highlightNode ident gp =
     (case gp of (g, prev) \<Rightarrow>
        if nodes g ident \<noteq> None then (addClass ''playing'' ident g, prev @ [ident])
        else (g, prev))"

definition highlight :: "string list \<Rightarrow> graph \<Rightarrow> graph \<times> string list" where
  "highlight ids g = fold highlightNode ids (g, [])"

definition updateGraphPlayhead :: "nat \<Rightarrow> nat \<Rightarrow> state \<Rightarrow> state" where
  "updateGraphPlayhead step nextGridStep s =
     (case cy s of
        None \<Rightarrow> s
      | Some g \<Rightarrow>
          (let g1 = fold (removeClass ''playing'') (prevPlayingNodes s) g;
               s1 = s\<lparr>cy := Some g1, prevPlayingNodes := []\<rparr>
           in (case map_of (chordGroups s1) step of
                 None \<Rightarrow> s1
               | Some srcGroup \<Rightarrow>
                   (let (g2, prev) = highlight (nodeIds srcGroup) g1;
                        s2 = s1\<lparr>cy := Some g2, prevPlayingNodes := prev\<rparr>
                    in if nodes g2 BALL = None \<or> length (stepSequence s2) < 2 then s2
                       else
                         (let seqPos = indexOf (activeStepArray s2) nextGridStep in
                          (case findTarget (chordGroups s2) (activeStepArray s2) seqPos 0 of
                             None \<Rightarrow> s2
                           | Some (tgtGroup, d) \<Rightarrow>
                               (case (nodes g2 (anchorId srcGroup), nodes g2 (anchorId tgtGroup)) of
                                  (Some srcNode, Some tgtNode) \<Rightarrow>
                                    (let stepMs = (60 / bpm s2 / 4) * 1000;
                                         duration = real (max d 1) * stepMs;
                                         g3 = stopNode BALL g2;
                                         g4 = setPosition BALL (position srcNode) g3;
                                         g5 = setOpacity BALL 1 g4;
                                         g6 = animate BALL (position tgtNode) duration g5
                                     in s2\<lparr>cy := Some g6\<rparr>)
                                | _ \<Rightarrow> s2)))))))"

text \<open>The callback given to \<^verbatim>\<open>scheduleVisual\<close> by the tick.\<close>

definition visual :: "nat \<Rightarrow> nat \<Rightarrow> state \<Rightarrow> state" where
  "visual step nextGridStep s = updateGraphPlayhead step nextGridStep (s\<lparr>playhead := Some step\<rparr>)"

section \<open>Start-up and events\<close>

definition initGraph :: "nat \<Rightarrow> nat \<Rightarrow> state \<Rightarrow> state" where
  "initGraph w h s =
     s\<lparr>cy := Some \<lparr>nodes = [BALL \<mapsto> \<lparr>label = None, classes = [''ball''], position = (0, 0),
                                        opacity = None, animation = None\<rparr>],
                    edges = [], clientWidth = w, clientHeight = h, fits = []\<rparr>\<rparr>"

text \<open>The module's variables when the script has been read; 120 is the tempo Tone starts with.\<close>

definition initialState :: state where
  "initialState =
     \<lparr>grid = emptyGrid, chordGroups = [], stepSequence = [], loop = None, cy = None,
      isPlaying = False, prevPlayingNodes = [], playbackMode = ''forward'',
      pendingPlaybackMode = None, activeStepArray = [], seqPosition = 0, bpm = 120,
      transportStarted = False, transportEvents = [], transportNextId = 0, playhead = None\<rparr>"

text \<open>The listener of \<^verbatim>\<open>DOMContentLoaded\<close>, for a container of the given size.\<close>

definition startup :: "nat \<Rightarrow> nat \<Rightarrow> state" where
  "startup w h = initGraph w h (initSynth initialState)"

text \<open>
  What can happen afterwards: the listeners of the page, the tick of the transport, the
  callback of the tick, and a change of the container's size.
\<close>

datatype event =
  CellClick string nat
  | ClearAll
  | Play "real option"
  | Stop
  | SetPlaybackMode string
  | SetBPM string
  | Tick real
  | Visual nat nat
  | FitGraph
  | ContainerResize nat nat

fun handle :: "event \<Rightarrow> state \<Rightarrow> state option" where
  "handle (CellClick note step) s = onCellClick note step s"
| "handle ClearAll s = clearAll s"
| "handle (Play field) s = Some (play field s)"
| "handle Stop s = Some (stop s)"
| "handle (SetPlaybackMode mode) s = Some (setPlaybackMode mode s)"
| "handle (SetBPM val) s = Some (setBPM val s)"
| "handle (Tick time) s = map_option fst (tick time s)"
| "handle (Visual step nextGridStep) s = Some (visual step nextGridStep s)"
| "handle FitGraph s = fitGraph s"
| "handle (ContainerResize w h) s =
     Some (s\<lparr>cy := map_option (\<lambda>g. g\<lparr>clientWidth := w, clientHeight := h\<rparr>) (cy s)\<rparr>)"

fun run :: "event list \<Rightarrow> state \<Rightarrow> state option" where
  "run [] s = Some s"
| "run (e # es) s = (case handle e s of None \<Rightarrow> None | Some s' \<Rightarrow> run es s')"

section \<open>Chord groups, as the specification describes them\<close>

text \<open>
  The pitches active on a step, in the order of \<^const>\<open>NOTES\<close>, and the group that the
  specification gives a step with an active pitch: its anchor is the last, lowest pitch.
\<close>

definition activePitches :: "grid \<Rightarrow> nat \<Rightarrow> string list" where
  "activePitches G s = filter (\<lambda>n. cell G n s) NOTES"

definition chordAt :: "grid \<Rightarrow> nat \<Rightarrow> group" where
  "chordAt G s =
     \<lparr>chordNotes = activePitches G s,
      nodeIds = map (\<lambda>n. eventId n s) (activePitches G s),
      anchor = last (activePitches G s),
      anchorId = eventId (last (activePitches G s)) s\<rparr>"

section \<open>The clock, as the specification describes it\<close>

text \<open>
  The cursor is inside the active step order. \<^verbatim>\<open>buildLoop\<close> makes it so before the
  first tick and every operation keeps it so.
\<close>

definition clockReady :: "state \<Rightarrow> bool" where
  "clockReady s = (seqPosition s < length (activeStepArray s))"

text \<open>The step that a tick resolves: the one under the cursor, after a queued mode is applied.\<close>

definition resolvedStep :: "state \<Rightarrow> nat" where
  "resolvedStep s = activeStepArray (applyPending s) ! seqPosition s"

fun isTrigger :: "effect \<Rightarrow> bool" where
  "isTrigger (TriggerAttackRelease ns d t v) = True"
| "isTrigger (ScheduleVisual a b t) = False"

section \<open>Auxiliary notions\<close>

text \<open>What a change of single nodes leaves alone: the edges, the fits, the container and the ids.\<close>

definition frame :: "graph \<Rightarrow> edge list \<times> nat list \<times> nat \<times> nat \<times> string set" where
  "frame g = (edges g, fits g, clientWidth g, clientHeight g, dom (nodes g))"

text \<open>The straight-line distance of two points.\<close>

definition distance :: "point \<Rightarrow> point \<Rightarrow> real" where
  "distance p q = sqrt ((fst p - fst q)\<^sup>2 + (snd p - snd q)\<^sup>2)"

text \<open>The forward distance from one step to another, around the loop of 16 steps.\<close>

definition stepDistance :: "nat \<Rightarrow> nat \<Rightarrow> int" where
  "stepDistance a b = (int b - int a) mod 16"

text \<open>The ids of all event nodes of a map of chord groups.\<close>

definition eventIds :: "groups \<Rightarrow> string set" where
  "eventIds cgs = (\<Union>(step, grp) \<in> set cgs. set (nodeIds grp))"

text \<open>The position of a chord's anchor node in a graph.\<close>

definition anchorPoint :: "graph \<Rightarrow> group \<Rightarrow> point option" where
  "anchorPoint g grp = map_option position (nodes g (anchorId grp))"

text \<open>A node with the given id is in the graph and has the class.\<close>

definition hasClass :: "string \<Rightarrow> graph \<Rightarrow> string \<Rightarrow> bool" where
  "hasClass c g i = (case nodes g i of None \<Rightarrow> False | Some nd \<Rightarrow> c \<in> set (classes nd))"

text \<open>Where a node is and how it shows, apart from its label and classes.\<close>

definition pose :: "node \<Rightarrow> point \<times> real option \<times> (point \<times> real) option" where
  "pose nd = (position nd, opacity nd, animation nd)"

text \<open>
  The program is ready for its events: the cursor is inside the step order, the graph
  exists, the chord groups and the step sequence are those of the grid, and the event
  nodes of all chords are in the graph.
\<close>

definition ready :: "state \<Rightarrow> bool" where
  "ready s =
     (clockReady s \<and> chordGroups s = buildChordGroups (grid s) \<and> stepSequence s = chordGroups s
      \<and> (case cy s of None \<Rightarrow> False | Some g \<Rightarrow> eventIds (chordGroups s) \<subseteq> dom (nodes g)))"

section \<open>Example inputs\<close>

text \<open>A grid with the chord E4, C4 on step 0 and the single note G4 on step 8.\<close>

definition chordGrid :: grid where
  "chordGrid = toggleCell ''G4'' 8 (toggleCell ''C4'' 0 (toggleCell ''E4'' 0 emptyGrid))"

text \<open>The program after start-up, playing, with the cursor on position 5.\<close>

definition playingState :: state where
  "playingState = (play None (startup 400 380))\<lparr>seqPosition := 5\<rparr>"

text \<open>The same with the chord grid, and with four notes on step 5.\<close>

definition chordState :: state where
  "chordState = (play None (startup 400 380))\<lparr>grid := chordGrid\<rparr>"

definition fourGrid :: grid where
  "fourGrid = toggleCell ''C5'' 5 (toggleCell ''G4'' 5 (toggleCell ''E4'' 5 (toggleCell ''C4'' 5 emptyGrid)))"

definition fourState :: state where
  "fourState = playingState\<lparr>grid := fourGrid\<rparr>"

text \<open>The program after start-up and a click on the cell of C4 on step 0.\<close>

definition oneNoteState :: state where
  "oneNoteState =
     (case onCellClick ''C4'' 0 (startup 400 380) of None \<Rightarrow> startup 400 380 | Some s \<Rightarrow> s)"

text \<open>The same after the visual update of a tick on step 0, which highlights C4.\<close>

definition highlightedState :: state where
  "highlightedState = updateGraphPlayhead 0 1 oneNoteState"


text \<open>The program after a second click, on the cell of C4 on step 8.\<close>

definition twoNoteState :: state where
  "twoNoteState =
     (case onCellClick ''C4'' 8 oneNoteState of None \<Rightarrow> oneNoteState | Some s \<Rightarrow> s)"
section \<open>Properties of the step order\<close>

lemma upt_16: "[0..<16] = [0, 1, 2, 3, 4, 5, 6, 7, 8, 9, 10, 11, 12, 13, 14, 15::nat]"
  by (simp add: upt_rec)

lemma getStepArray_forward: "getStepArray ''forward'' = [0..<16]"
  by (simp add: getStepArray_def STEPS_def)

lemma getStepArray_reverse: "getStepArray ''reverse'' = rev [0..<16]"
  by (simp add: getStepArray_def STEPS_def)

lemma getStepArray_pingpong: "getStepArray ''pingpong'' = [0..<16] @ rev [0..<16]"
  by (simp add: getStepArray_def STEPS_def Let_def)

text \<open>
  C2. \<^verbatim>\<open>getStepArray\<close> is a function of the mode alone: the forward order is
  \<open>0, 1, ..., 15\<close> and has length 16, the reverse order is the forward order reversed,
  \<open>15, ..., 0\<close>, and the ping-pong order is the forward order followed by the reverse
  order, 32 entries.
\<close>

theorem getStepArray_orders:
  "getStepArray ''forward'' = [0, 1, 2, 3, 4, 5, 6, 7, 8, 9, 10, 11, 12, 13, 14, 15]
   \<and> length (getStepArray ''forward'') = 16
   \<and> getStepArray ''reverse'' = rev (getStepArray ''forward'')
   \<and> getStepArray ''reverse'' = [15, 14, 13, 12, 11, 10, 9, 8, 7, 6, 5, 4, 3, 2, 1, 0]
   \<and> getStepArray ''pingpong'' = getStepArray ''forward'' @ getStepArray ''reverse''
   \<and> length (getStepArray ''pingpong'') = 32
   \<and> getStepArray ''pingpong'' =
       [0, 1, 2, 3, 4, 5, 6, 7, 8, 9, 10, 11, 12, 13, 14, 15,
        15, 14, 13, 12, 11, 10, 9, 8, 7, 6, 5, 4, 3, 2, 1, 0]"
  unfolding getStepArray_forward getStepArray_reverse getStepArray_pingpong upt_16
  by simp

section \<open>Properties of the chord groups\<close>

lemma update_fresh: "k \<notin> fst ` set al \<Longrightarrow> AList.update k v al = al @ [(k, v)]"
  by (induction al) auto

lemma groupStep_eq:
  "groupStep G s gs = (if activePitches G s = [] then gs else AList.update s (chordAt G s) gs)"
  by (simp add: groupStep_def activePitches_def chordAt_def Let_def last_conv_nth last_map)

lemma fold_groupStep:
  "\<forall>k \<in> fst ` set acc. k < a \<Longrightarrow>
   fold (groupStep G) [a..<b] acc =
     acc @ map (\<lambda>s. (s, chordAt G s)) (filter (\<lambda>s. activePitches G s \<noteq> []) [a..<b])"
proof (induction "b - a" arbitrary: a acc)
  case 0
  then show ?case by simp
next
  case (Suc d)
  then have ab: "a < b" and d: "d = b - Suc a" by auto
  have fresh: "a \<notin> fst ` set acc" using Suc.prems by auto
  have keys: "\<forall>k \<in> fst ` set (groupStep G a acc). k < Suc a"
    using Suc.prems fresh by (auto simp: groupStep_eq update_fresh less_Suc_eq)
  have "fold (groupStep G) [a..<b] acc = fold (groupStep G) [Suc a..<b] (groupStep G a acc)"
    using ab by (simp add: upt_conv_Cons)
  also have "\<dots> = groupStep G a acc @
      map (\<lambda>s. (s, chordAt G s)) (filter (\<lambda>s. activePitches G s \<noteq> []) [Suc a..<b])"
    using Suc.hyps(1) [OF d keys] .
  also have "\<dots> = acc @ map (\<lambda>s. (s, chordAt G s)) (filter (\<lambda>s. activePitches G s \<noteq> []) [a..<b])"
    using ab fresh by (simp add: upt_conv_Cons groupStep_eq update_fresh)
  finally show ?case .
qed

lemma buildChordGroups_eq:
  "buildChordGroups G =
     map (\<lambda>s. (s, chordAt G s)) (filter (\<lambda>s. activePitches G s \<noteq> []) [0..<STEPS])"
  using fold_groupStep [of "[]" 0 G STEPS] by (simp add: buildChordGroups_def)

lemma map_of_graph: "map_of (map (\<lambda>s. (s, f s)) xs) k = (if k \<in> set xs then Some (f k) else None)"
  by (induction xs) auto

lemma map_of_buildChordGroups:
  "map_of (buildChordGroups G) s =
     (if s < STEPS \<and> activePitches G s \<noteq> [] then Some (chordAt G s) else None)"
  by (auto simp: buildChordGroups_eq map_of_graph)

lemma last_filter_split:
  "filter P xs \<noteq> [] \<Longrightarrow>
   \<exists>pre post. xs = pre @ last (filter P xs) # post \<and> P (last (filter P xs)) \<and> (\<forall>x \<in> set post. \<not> P x)"
proof (induction xs rule: rev_induct)
  case Nil
  then show ?case by simp
next
  case (snoc x xs)
  show ?case
  proof (cases "P x")
    case True
    then show ?thesis by (intro exI [of _ xs] exI [of _ "[]"]) simp
  next
    case False
    with snoc obtain pre post where
      "xs = pre @ last (filter P xs) # post" "P (last (filter P xs))" "\<forall>x \<in> set post. \<not> P x"
      by auto
    with False show ?thesis
      by (intro exI [of _ pre] exI [of _ "post @ [x]"]) auto
  qed
qed

text \<open>
  C1. \<^verbatim>\<open>buildChordGroups\<close> has an entry for a step exactly when the step is one of
  0..15 and a pitch is active on it. The pitches of the entry are the active pitches in
  the order of \<^const>\<open>NOTES\<close>, high to low, so the list is not empty; the node ids are
  the event ids of these pitches on the step; the anchor is the last pitch of the list,
  which is active and has no active pitch below it. A grid without an active cell gives
  the empty map.
\<close>

theorem buildChordGroups_groups:
  "(has (buildChordGroups G) s \<longleftrightarrow> s < 16 \<and> (\<exists>n \<in> set NOTES. cell G n s))
   \<and> (\<forall>grp. map_of (buildChordGroups G) s = Some grp \<longrightarrow>
         chordNotes grp = filter (\<lambda>n. cell G n s) NOTES
       \<and> chordNotes grp \<noteq> []
       \<and> nodeIds grp = map (\<lambda>n. eventId n s) (chordNotes grp)
       \<and> anchor grp = last (chordNotes grp)
       \<and> anchorId grp = eventId (anchor grp) s
       \<and> cell G (anchor grp) s
       \<and> (\<exists>higher lower. NOTES = higher @ anchor grp # lower \<and> (\<forall>n \<in> set lower. \<not> cell G n s)))
   \<and> ((\<forall>n \<in> set NOTES. \<forall>t < 16. \<not> cell G n t) \<longrightarrow> buildChordGroups G = [])
   \<and> buildChordGroups emptyGrid = []"
proof (intro conjI allI impI)
  show "has (buildChordGroups G) s \<longleftrightarrow> s < 16 \<and> (\<exists>n \<in> set NOTES. cell G n s)"
    by (auto simp: has_def map_of_buildChordGroups STEPS_def activePitches_def filter_empty_conv)
next
  fix grp assume "map_of (buildChordGroups G) s = Some grp"
  then have ne: "activePitches G s \<noteq> []" and grp: "grp = chordAt G s"
    by (auto simp: map_of_buildChordGroups split: if_splits)
  show "chordNotes grp = filter (\<lambda>n. cell G n s) NOTES"
    by (simp add: grp chordAt_def activePitches_def)
  show "chordNotes grp \<noteq> []" using ne by (simp add: grp chordAt_def)
  show "nodeIds grp = map (\<lambda>n. eventId n s) (chordNotes grp)" by (simp add: grp chordAt_def)
  show "anchor grp = last (chordNotes grp)" by (simp add: grp chordAt_def)
  show "anchorId grp = eventId (anchor grp) s" by (simp add: grp chordAt_def)
  from last_filter_split [of "\<lambda>n. cell G n s" NOTES] ne
  obtain pre post where
    "NOTES = pre @ anchor grp # post" "cell G (anchor grp) s" "\<forall>x \<in> set post. \<not> cell G x s"
    by (auto simp: grp chordAt_def activePitches_def)
  then show "cell G (anchor grp) s"
    and "\<exists>higher lower. NOTES = higher @ anchor grp # lower \<and> (\<forall>n \<in> set lower. \<not> cell G n s)"
    by blast+
next
  assume "\<forall>n \<in> set NOTES. \<forall>t < 16. \<not> cell G n t"
  then show "buildChordGroups G = []"
    by (auto simp: buildChordGroups_eq activePitches_def filter_empty_conv STEPS_def)
next
  show "buildChordGroups emptyGrid = []"
    by (auto simp: buildChordGroups_eq activePitches_def filter_empty_conv emptyGrid_def cell_def)
qed


lemma chordGrid_cells:
  "cell chordGrid n s \<longleftrightarrow> (n = ''E4'' \<and> s = 0) \<or> (n = ''C4'' \<and> s = 0) \<or> (n = ''G4'' \<and> s = 8)"
  by (auto simp: chordGrid_def toggleCell_def emptyGrid_def cell_def STEPS_def nth_list_update
      nth_Cons' split: if_splits)

lemma activePitches_chordGrid_0: "activePitches chordGrid 0 = [''E4'', ''C4'']"
  by (simp add: activePitches_def NOTES_def chordGrid_cells)

lemma string_of_nat_0: "string_of_nat 0 = ''0''"
  by (simp add: string_of_nat.simps digit_char_def)

theorem buildChordGroups_groups_witness:
  "has (buildChordGroups chordGrid) 0
   \<and> (\<exists>grp. map_of (buildChordGroups chordGrid) 0 = Some grp
        \<and> chordNotes grp = [''E4'', ''C4''] \<and> anchor grp = ''C4''
        \<and> nodeIds grp = [''E4@0'', ''C4@0''] \<and> anchorId grp = ''C4@0'')
   \<and> \<not> has (buildChordGroups chordGrid) 1
   \<and> buildChordGroups (clearGrid chordGrid) = []"
proof -
  have c: "cell chordGrid ''C4'' 0" by (simp add: chordGrid_cells)
  have n: "''C4'' \<in> set NOTES" by (simp add: NOTES_def)
  have 1: "has (buildChordGroups chordGrid) 0"
    using buildChordGroups_groups [of chordGrid 0] c n by auto
  then obtain grp where g: "map_of (buildChordGroups chordGrid) 0 = Some grp"
    by (auto simp: has_def)
  have f: "filter (\<lambda>n. cell chordGrid n 0) NOTES = [''E4'', ''C4'']"
    by (simp add: NOTES_def chordGrid_cells)
  have 2: "chordNotes grp = [''E4'', ''C4''] \<and> anchor grp = ''C4''
        \<and> nodeIds grp = [''E4@0'', ''C4@0''] \<and> anchorId grp = ''C4@0''"
    using buildChordGroups_groups [of chordGrid 0] g f by (simp add: eventId_def string_of_nat_0)
  have 3: "\<not> has (buildChordGroups chordGrid) 1"
    using buildChordGroups_groups [of chordGrid 1] by (simp add: chordGrid_cells)
  have "\<forall>n \<in> set NOTES. \<forall>t < 16. \<not> cell (clearGrid chordGrid) n t"
    by (simp add: clearGrid_def cell_def STEPS_def nth_append)
  then have 4: "buildChordGroups (clearGrid chordGrid) = []"
    using buildChordGroups_groups [of "clearGrid chordGrid" 0] by simp
  from 1 g 2 3 4 show ?thesis by blast
qed

section \<open>Properties of the clock\<close>

lemma length_getStepArray: "length (getStepArray m) = (if m = ''pingpong'' then 32 else 16)"
  by (simp add: getStepArray_def STEPS_def Let_def)

lemma getStepArray_nonempty: "0 < length (getStepArray m)"
  by (simp add: length_getStepArray)

lemma tick_inside:
  assumes "0 < seqPosition s" "seqPosition s < length (activeStepArray s)"
  shows "tick t s =
    Some (s\<lparr>seqPosition := (seqPosition s + 1) mod length (activeStepArray s)\<rparr>,
      (if activePitches (grid s) (activeStepArray s ! seqPosition s) = [] then []
       else [TriggerAttackRelease (activePitches (grid s) (activeStepArray s ! seqPosition s)) ''16n'' t
               (1 / sqrt (real (length (activePitches (grid s) (activeStepArray s ! seqPosition s)))))])
      @ [ScheduleVisual (activeStepArray s ! seqPosition s)
           (activeStepArray s ! ((seqPosition s + 1) mod length (activeStepArray s))) t])"
  using assms by (simp add: tick_def applyPending_def Let_def activePitches_def)

lemma tick_pending:
  assumes "seqPosition s = 0" "pendingPlaybackMode s = Some m"
  shows "tick t s =
    Some (s\<lparr>playbackMode := m, pendingPlaybackMode := None, activeStepArray := getStepArray m,
            seqPosition := 1\<rparr>,
      (if activePitches (grid s) (getStepArray m ! 0) = [] then []
       else [TriggerAttackRelease (activePitches (grid s) (getStepArray m ! 0)) ''16n'' t
               (1 / sqrt (real (length (activePitches (grid s) (getStepArray m ! 0)))))])
      @ [ScheduleVisual (getStepArray m ! 0) (getStepArray m ! 1) t])"
  using assms by (simp add: tick_def applyPending_def Let_def activePitches_def length_getStepArray)

lemma tick_no_pending:
  assumes "seqPosition s = 0" "pendingPlaybackMode s = None" "0 < length (activeStepArray s)"
  shows "tick t s =
    Some (s\<lparr>seqPosition := 1 mod length (activeStepArray s)\<rparr>,
      (if activePitches (grid s) (activeStepArray s ! 0) = [] then []
       else [TriggerAttackRelease (activePitches (grid s) (activeStepArray s ! 0)) ''16n'' t
               (1 / sqrt (real (length (activePitches (grid s) (activeStepArray s ! 0)))))])
      @ [ScheduleVisual (activeStepArray s ! 0) (activeStepArray s ! (1 mod length (activeStepArray s))) t])"
  using assms by (simp add: tick_def applyPending_def Let_def activePitches_def)

lemma ticks_inside:
  "0 < seqPosition s \<Longrightarrow> seqPosition s < length (activeStepArray s) \<Longrightarrow>
   length ts \<le> length (activeStepArray s) - seqPosition s \<Longrightarrow>
   ticks ts s = Some (s\<lparr>seqPosition := (seqPosition s + length ts) mod length (activeStepArray s)\<rparr>)"
proof (induction ts arbitrary: s)
  case Nil
  then show ?case by simp
next
  case (Cons t ts)
  let ?n = "length (activeStepArray s)"
  let ?s' = "s\<lparr>seqPosition := (seqPosition s + 1) mod ?n\<rparr>"
  have step: "ticks (t # ts) s = ticks ts ?s'"
    using Cons.prems by (simp add: tick_inside)
  show ?case
  proof (cases "seqPosition s + 1 < ?n")
    case True
    then have "ticks ts ?s' = Some (?s'\<lparr>seqPosition := (seqPosition ?s' + length ts) mod length (activeStepArray ?s')\<rparr>)"
      using Cons.prems by (intro Cons.IH) auto
    with True step show ?thesis by simp
  next
    case False
    with Cons.prems(2) have e: "seqPosition s + 1 = ?n" by arith
    have "\<And>k. Suc k \<le> ?n - seqPosition s \<Longrightarrow> k = 0" using e by arith
    from this [of "length ts"] Cons.prems(3) have "ts = []" by simp
    then have "ticks (t # ts) s = Some ?s'" unfolding step by simp
    then show ?thesis using e \<open>ts = []\<close> by simp
  qed
qed

lemma mode_change_deferred:
  assumes "isPlaying s" and "0 < seqPosition s" and "seqPosition s < length (activeStepArray s)"
  shows "(\<forall>ts. length ts \<le> length (activeStepArray s) - seqPosition s \<longrightarrow>
           (\<exists>s'. ticks ts (setPlaybackMode M s) = Some s'
              \<and> playbackMode s' = playbackMode s
              \<and> activeStepArray s' = activeStepArray s
              \<and> pendingPlaybackMode s' = Some M
              \<and> seqPosition s' = (seqPosition s + length ts) mod length (activeStepArray s)))
       \<and> (\<forall>ts t. length ts = length (activeStepArray s) - seqPosition s \<longrightarrow>
           (\<exists>s' s'' effs. ticks ts (setPlaybackMode M s) = Some s' \<and> seqPosition s' = 0
              \<and> tick t s' = Some (s'', effs)
              \<and> playbackMode s'' = M
              \<and> activeStepArray s'' = getStepArray M
              \<and> pendingPlaybackMode s'' = None
              \<and> seqPosition s'' = 1
              \<and> ScheduleVisual (getStepArray M ! 0) (getStepArray M ! 1) t \<in> set effs))"
proof -
  let ?s1 = "setPlaybackMode M s"
  have s1: "?s1 = s\<lparr>pendingPlaybackMode := Some M\<rparr>"
    using assms(1) by (simp add: setPlaybackMode_def)
  have run: "ticks ts ?s1 =
      Some (?s1\<lparr>seqPosition := (seqPosition s + length ts) mod length (activeStepArray s)\<rparr>)"
    if "length ts \<le> length (activeStepArray s) - seqPosition s" for ts
    using ticks_inside [of ?s1 ts] assms that by (simp add: s1)
  show ?thesis
  proof (intro conjI allI impI)
    fix ts :: "real list"
    assume "length ts \<le> length (activeStepArray s) - seqPosition s"
    from run [OF this] show "\<exists>s'. ticks ts ?s1 = Some s'
              \<and> playbackMode s' = playbackMode s
              \<and> activeStepArray s' = activeStepArray s
              \<and> pendingPlaybackMode s' = Some M
              \<and> seqPosition s' = (seqPosition s + length ts) mod length (activeStepArray s)"
      by (simp add: s1)
  next
    fix ts :: "real list" and t
    assume len: "length ts = length (activeStepArray s) - seqPosition s"
    let ?s' = "?s1\<lparr>seqPosition := (seqPosition s + length ts) mod length (activeStepArray s)\<rparr>"
    have r: "ticks ts ?s1 = Some ?s'" using run [of ts] len by simp
    have z: "seqPosition ?s' = 0" using len assms by simp
    have p: "pendingPlaybackMode ?s' = Some M" by (simp add: s1)
    show "\<exists>s' s'' effs. ticks ts ?s1 = Some s' \<and> seqPosition s' = 0
              \<and> tick t s' = Some (s'', effs)
              \<and> playbackMode s'' = M
              \<and> activeStepArray s'' = getStepArray M
              \<and> pendingPlaybackMode s'' = None
              \<and> seqPosition s'' = 1
              \<and> ScheduleVisual (getStepArray M ! 0) (getStepArray M ! 1) t \<in> set effs"
    proof (intro exI conjI)
      show "ticks ts ?s1 = Some ?s'" by (rule r)
      show "seqPosition ?s' = 0" by (rule z)
      show "tick t ?s' = Some (?s'\<lparr>playbackMode := M, pendingPlaybackMode := None,
                activeStepArray := getStepArray M, seqPosition := 1\<rparr>,
          (if activePitches (grid ?s') (getStepArray M ! 0) = [] then []
           else [TriggerAttackRelease (activePitches (grid ?s') (getStepArray M ! 0)) ''16n'' t
               (1 / sqrt (real (length (activePitches (grid ?s') (getStepArray M ! 0)))))])
          @ [ScheduleVisual (getStepArray M ! 0) (getStepArray M ! 1) t])"
        by (rule tick_pending [OF z p])
    qed simp_all
  qed
qed


lemma setPlaybackMode_stopped:
  "\<not> isPlaying s \<Longrightarrow>
     playbackMode (setPlaybackMode M s) = M
   \<and> activeStepArray (setPlaybackMode M s) = getStepArray M
   \<and> seqPosition (setPlaybackMode M s) = 0
   \<and> pendingPlaybackMode (setPlaybackMode M s) = pendingPlaybackMode s"
  by (simp add: setPlaybackMode_def buildLoop_def Let_def split: option.splits)

text \<open>
  C3. A mode requested while the program plays, with the cursor on a position \<open>p > 0\<close>
  of an order of length \<open>n\<close>, is only queued: after each of the next \<open>n - p\<close> ticks the
  mode and the step order are the ones before the request and the request is still
  queued; the last of these ticks brings the cursor back to 0. The tick after that
  makes the requested mode the mode and its order the step order before it reads its
  step, which is the first step of the new order. A mode requested while the program is
  stopped is the mode at once, with its order and the cursor on 0.
\<close>

theorem mode_change_at_boundary:
  "(isPlaying s \<and> 0 < seqPosition s \<and> seqPosition s < length (activeStepArray s) \<longrightarrow>
      (\<forall>ts. length ts \<le> length (activeStepArray s) - seqPosition s \<longrightarrow>
           (\<exists>s'. ticks ts (setPlaybackMode M s) = Some s'
              \<and> playbackMode s' = playbackMode s
              \<and> activeStepArray s' = activeStepArray s
              \<and> pendingPlaybackMode s' = Some M
              \<and> seqPosition s' = (seqPosition s + length ts) mod length (activeStepArray s)))
       \<and> (\<forall>ts t. length ts = length (activeStepArray s) - seqPosition s \<longrightarrow>
           (\<exists>s' s'' effs. ticks ts (setPlaybackMode M s) = Some s' \<and> seqPosition s' = 0
              \<and> tick t s' = Some (s'', effs)
              \<and> playbackMode s'' = M
              \<and> activeStepArray s'' = getStepArray M
              \<and> pendingPlaybackMode s'' = None
              \<and> seqPosition s'' = 1
              \<and> ScheduleVisual (getStepArray M ! 0) (getStepArray M ! 1) t \<in> set effs)))
   \<and> (\<not> isPlaying s \<longrightarrow>
         playbackMode (setPlaybackMode M s) = M
       \<and> activeStepArray (setPlaybackMode M s) = getStepArray M
       \<and> seqPosition (setPlaybackMode M s) = 0)"
  using mode_change_deferred [of s M] setPlaybackMode_stopped [of s M] by blast

lemma playingState_fields:
  "isPlaying playingState" "seqPosition playingState = 5"
  "activeStepArray playingState = getStepArray ''forward''"
  "playbackMode playingState = ''forward''"
  by (simp_all add: playingState_def play_def startup_def initGraph_def initSynth_def
      buildLoop_def initialState_def Let_def)

theorem mode_change_at_boundary_witness:
  "(\<exists>s'. ticks [0, 1, 2] (setPlaybackMode ''reverse'' playingState) = Some s'
       \<and> playbackMode s' = ''forward'' \<and> activeStepArray s' = getStepArray ''forward''
       \<and> pendingPlaybackMode s' = Some ''reverse'' \<and> seqPosition s' = 8)
   \<and> (\<exists>s' s'' effs. ticks [0, 1, 2, 3, 4, 5, 6, 7, 8, 9, 10] (setPlaybackMode ''reverse'' playingState) = Some s'
       \<and> seqPosition s' = 0 \<and> tick 11 s' = Some (s'', effs)
       \<and> playbackMode s'' = ''reverse'' \<and> activeStepArray s'' = getStepArray ''reverse''
       \<and> ScheduleVisual 15 14 11 \<in> set effs)
   \<and> playbackMode (setPlaybackMode ''pingpong'' (stop playingState)) = ''pingpong''
   \<and> activeStepArray (setPlaybackMode ''pingpong'' (stop playingState)) = getStepArray ''pingpong''"
proof -
  have pre: "isPlaying playingState \<and> 0 < seqPosition playingState
      \<and> seqPosition playingState < length (activeStepArray playingState)"
    by (simp add: playingState_fields length_getStepArray)
  have stopped: "\<not> isPlaying (stop playingState)"
    by (simp add: stop_def Let_def playingState_fields buildLoop_def split: option.splits)
  have n: "length (activeStepArray playingState) - seqPosition playingState = 11"
    by (simp add: playingState_fields length_getStepArray)
  have r: "getStepArray ''reverse'' ! 0 = 15" "getStepArray ''reverse'' ! 1 = 14"
    by (simp_all add: getStepArray_reverse upt_16)
  from mode_change_at_boundary [of playingState "''reverse''"] pre n
  have a: "\<forall>ts. length ts \<le> 11 \<longrightarrow>
           (\<exists>s'. ticks ts (setPlaybackMode ''reverse'' playingState) = Some s'
              \<and> playbackMode s' = playbackMode playingState
              \<and> activeStepArray s' = activeStepArray playingState
              \<and> pendingPlaybackMode s' = Some ''reverse''
              \<and> seqPosition s' = (seqPosition playingState + length ts) mod length (activeStepArray playingState))"
    and b: "\<forall>ts t. length ts = 11 \<longrightarrow>
           (\<exists>s' s'' effs. ticks ts (setPlaybackMode ''reverse'' playingState) = Some s' \<and> seqPosition s' = 0
              \<and> tick t s' = Some (s'', effs)
              \<and> playbackMode s'' = ''reverse''
              \<and> activeStepArray s'' = getStepArray ''reverse''
              \<and> pendingPlaybackMode s'' = None
              \<and> seqPosition s'' = 1
              \<and> ScheduleVisual (getStepArray ''reverse'' ! 0) (getStepArray ''reverse'' ! 1) t \<in> set effs)"
    by simp_all
  from a [rule_format, of "[0, 1, 2]"]
  have 1: "\<exists>s'. ticks [0, 1, 2] (setPlaybackMode ''reverse'' playingState) = Some s'
       \<and> playbackMode s' = ''forward'' \<and> activeStepArray s' = getStepArray ''forward''
       \<and> pendingPlaybackMode s' = Some ''reverse'' \<and> seqPosition s' = 8"
    by (simp add: playingState_fields length_getStepArray)
  from b [rule_format, of "[0, 1, 2, 3, 4, 5, 6, 7, 8, 9, 10]" 11]
  have 2: "\<exists>s' s'' effs. ticks [0, 1, 2, 3, 4, 5, 6, 7, 8, 9, 10] (setPlaybackMode ''reverse'' playingState) = Some s'
       \<and> seqPosition s' = 0 \<and> tick 11 s' = Some (s'', effs)
       \<and> playbackMode s'' = ''reverse'' \<and> activeStepArray s'' = getStepArray ''reverse''
       \<and> ScheduleVisual 15 14 11 \<in> set effs"
    unfolding r by simp blast
  from mode_change_at_boundary [of "stop playingState" "''pingpong''"] stopped
  have 3: "playbackMode (setPlaybackMode ''pingpong'' (stop playingState)) = ''pingpong''
   \<and> activeStepArray (setPlaybackMode ''pingpong'' (stop playingState)) = getStepArray ''pingpong''"
    by simp
  from 1 2 3 show ?thesis by blast
qed


lemma clockReady_applyPending:
  "clockReady s \<Longrightarrow> seqPosition s < length (activeStepArray (applyPending s))"
  using getStepArray_nonempty
  by (auto simp: clockReady_def applyPending_def split: option.splits)

lemma tick_effects:
  assumes "clockReady s"
  shows "\<exists>s'. tick t s =
    Some (s',
      (if activePitches (grid s) (resolvedStep s) = [] then []
       else [TriggerAttackRelease (activePitches (grid s) (resolvedStep s)) ''16n'' t
               (1 / sqrt (real (length (activePitches (grid s) (resolvedStep s)))))])
      @ [ScheduleVisual (resolvedStep s)
           (activeStepArray (applyPending s) ! ((seqPosition s + 1) mod length (activeStepArray (applyPending s)))) t])"
proof -
  have g: "grid (applyPending s) = grid s" "seqPosition (applyPending s) = seqPosition s"
    by (simp_all add: applyPending_def split: option.splits)
  show ?thesis
    using clockReady_applyPending [OF assms]
    by (simp add: tick_def Let_def g resolvedStep_def activePitches_def)
qed

text \<open>
  C4. A tick on a state whose cursor is inside the step order returns, and among its
  effects the calls of \<^verbatim>\<open>triggerAttackRelease\<close> are: none when no pitch is active on
  the resolved step; otherwise exactly one, with all the active pitches of that step,
  the duration \<^verbatim>\<open>'16n'\<close>, the time of the tick and the velocity \<open>1 / sqrt k\<close> for \<open>k\<close>
  active pitches, which is 1 for one pitch and 1/2 for four.
\<close>

theorem tick_triggers_chord:
  assumes "clockReady s"
  shows "\<exists>s' effs. tick t s = Some (s', effs)
     \<and> (activePitches (grid s) (resolvedStep s) = [] \<longrightarrow> filter isTrigger effs = [])
     \<and> (activePitches (grid s) (resolvedStep s) \<noteq> [] \<longrightarrow>
          filter isTrigger effs =
            [TriggerAttackRelease (activePitches (grid s) (resolvedStep s)) ''16n'' t
               (1 / sqrt (real (length (activePitches (grid s) (resolvedStep s)))))])
     \<and> (length (activePitches (grid s) (resolvedStep s)) = 1 \<longrightarrow>
          filter isTrigger effs =
            [TriggerAttackRelease (activePitches (grid s) (resolvedStep s)) ''16n'' t 1])
     \<and> (length (activePitches (grid s) (resolvedStep s)) = 4 \<longrightarrow>
          filter isTrigger effs =
            [TriggerAttackRelease (activePitches (grid s) (resolvedStep s)) ''16n'' t (1 / 2)])"
proof -
  have four: "sqrt 4 = 2" by (rule real_sqrt_four)
  from tick_effects [OF assms, of t] obtain s' where
    "tick t s = Some (s',
      (if activePitches (grid s) (resolvedStep s) = [] then []
       else [TriggerAttackRelease (activePitches (grid s) (resolvedStep s)) ''16n'' t
               (1 / sqrt (real (length (activePitches (grid s) (resolvedStep s)))))])
      @ [ScheduleVisual (resolvedStep s)
           (activeStepArray (applyPending s) ! ((seqPosition s + 1) mod length (activeStepArray (applyPending s)))) t])"
    by blast
  then show ?thesis by (auto simp: four)
qed

lemma fourState_fields:
  "seqPosition fourState = 5" "activeStepArray fourState = [0..<16]" "grid fourState = fourGrid"
  by (simp_all add: fourState_def playingState_fields getStepArray_forward)

lemma fourGrid_cells:
  "cell fourGrid n s \<longleftrightarrow> s = 5 \<and> (n = ''C5'' \<or> n = ''G4'' \<or> n = ''E4'' \<or> n = ''C4'')"
  by (auto simp: fourGrid_def toggleCell_def emptyGrid_def cell_def STEPS_def nth_list_update
      nth_Cons' split: if_splits)

theorem tick_triggers_chord_witness:
  "clockReady fourState
   \<and> (\<exists>s' effs. tick 0 fourState = Some (s', effs)
        \<and> filter isTrigger effs = [TriggerAttackRelease [''C5'', ''G4'', ''E4'', ''C4''] ''16n'' 0 (1 / 2)])"
proof -
  have c: "clockReady fourState" by (simp add: clockReady_def fourState_fields)
  have r: "resolvedStep fourState = 5"
    by (simp add: resolvedStep_def applyPending_def fourState_fields)
  have p: "activePitches (grid fourState) (resolvedStep fourState) = [''C5'', ''G4'', ''E4'', ''C4'']"
    by (simp add: r fourState_fields activePitches_def NOTES_def fourGrid_cells)
  from tick_triggers_chord [OF c, of 0] c show ?thesis
    unfolding p by auto
qed


lemma buildLoop_fields:
  "activeStepArray (buildLoop s) = getStepArray (playbackMode s)"
  "seqPosition (buildLoop s) = 0"
  "playbackMode (buildLoop s) = playbackMode s"
  "pendingPlaybackMode (buildLoop s) = pendingPlaybackMode s"
  "isPlaying (buildLoop s) = isPlaying s"
  "grid (buildLoop s) = grid s"
  "cy (buildLoop s) = cy s"
  "bpm (buildLoop s) = bpm s"
  "chordGroups (buildLoop s) = chordGroups s"
  "stepSequence (buildLoop s) = stepSequence s"
  "prevPlayingNodes (buildLoop s) = prevPlayingNodes s"
  by (simp_all add: buildLoop_def Let_def split: option.splits)

lemma stop_clock:
  assumes "isPlaying s"
  shows "seqPosition (stop s) = 0" "\<not> isPlaying (stop s)" "pendingPlaybackMode (stop s) = None"
    "playbackMode (stop s) = (case pendingPlaybackMode s of None \<Rightarrow> playbackMode s | Some m \<Rightarrow> m)"
    "activeStepArray (stop s) =
       (case pendingPlaybackMode s of None \<Rightarrow> activeStepArray s | Some m \<Rightarrow> getStepArray m)"
    "grid (stop s) = grid s"
  using assms by (simp_all add: stop_def Let_def buildLoop_fields split: option.splits)

text \<open>
  C8. \<^verbatim>\<open>stop\<close> on a playing program puts the cursor on 0 and leaves the pending slot
  empty. A mode that was pending is then the mode, and the step order is the order of
  that mode; without a pending mode, the mode and the order stay. So after the next
  \<^verbatim>\<open>play\<close> the first tick reads the first step of the selected mode's order.
\<close>

theorem stop_flushes_pending:
  assumes "isPlaying s"
  shows "\<not> isPlaying (stop s)
     \<and> seqPosition (stop s) = 0
     \<and> pendingPlaybackMode (stop s) = None
     \<and> (\<forall>m. pendingPlaybackMode s = Some m \<longrightarrow>
           playbackMode (stop s) = m \<and> activeStepArray (stop s) = getStepArray m
         \<and> (\<forall>field t. \<exists>s' effs. tick t (play field (stop s)) = Some (s', effs)
               \<and> playbackMode s' = m \<and> activeStepArray s' = getStepArray m
               \<and> ScheduleVisual (getStepArray m ! 0) (getStepArray m ! 1) t \<in> set effs))
     \<and> (pendingPlaybackMode s = None \<longrightarrow>
           playbackMode (stop s) = playbackMode s \<and> activeStepArray (stop s) = activeStepArray s)"
proof (intro conjI allI impI)
  show "\<not> isPlaying (stop s)" "seqPosition (stop s) = 0" "pendingPlaybackMode (stop s) = None"
    using stop_clock [OF assms] by simp_all
next
  fix m assume m: "pendingPlaybackMode s = Some m"
  show pm: "playbackMode (stop s) = m" and arr: "activeStepArray (stop s) = getStepArray m"
    using stop_clock [OF assms] m by simp_all
  fix field t
  let ?p = "play field (stop s)"
  have f: "seqPosition ?p = 0" "pendingPlaybackMode ?p = None" "activeStepArray ?p = getStepArray m"
    "playbackMode ?p = m"
    using stop_clock [OF assms] m by (simp_all add: play_def)
  have "0 < length (activeStepArray ?p)" unfolding f by (rule getStepArray_nonempty)
  from tick_no_pending [OF f(1) f(2) this, of t]
  show "\<exists>s' effs. tick t ?p = Some (s', effs)
               \<and> playbackMode s' = m \<and> activeStepArray s' = getStepArray m
               \<and> ScheduleVisual (getStepArray m ! 0) (getStepArray m ! 1) t \<in> set effs"
    by (simp add: f length_getStepArray)
next
  assume "pendingPlaybackMode s = None"
  then show "playbackMode (stop s) = playbackMode s" "activeStepArray (stop s) = activeStepArray s"
    using stop_clock [OF assms] by simp_all
qed

theorem stop_flushes_pending_witness:
  "isPlaying (setPlaybackMode ''reverse'' playingState)
   \<and> pendingPlaybackMode (setPlaybackMode ''reverse'' playingState) = Some ''reverse''
   \<and> seqPosition (stop (setPlaybackMode ''reverse'' playingState)) = 0
   \<and> pendingPlaybackMode (stop (setPlaybackMode ''reverse'' playingState)) = None
   \<and> playbackMode (stop (setPlaybackMode ''reverse'' playingState)) = ''reverse''
   \<and> activeStepArray (stop (setPlaybackMode ''reverse'' playingState)) =
       [15, 14, 13, 12, 11, 10, 9, 8, 7, 6, 5, 4, 3, 2, 1, 0]"
proof -
  let ?s = "setPlaybackMode ''reverse'' playingState"
  have p: "isPlaying ?s" and m: "pendingPlaybackMode ?s = Some ''reverse''"
    by (simp_all add: setPlaybackMode_def playingState_fields)
  from stop_flushes_pending [OF p] m p show ?thesis
    by (simp add: getStepArray_reverse upt_16)
qed

section \<open>The tempo\<close>

text \<open>
  C10. \<^verbatim>\<open>setBPM\<close> changes nothing but the tempo, and the tempo only when
  \<^verbatim>\<open>parseInt(val, 10)\<close> is a number above 0, which then is the tempo. When it is
  \<^verbatim>\<open>NaN\<close>, zero or negative the state stays as it is. No branch of the function throws.
\<close>

theorem setBPM_guard:
  "(\<forall>b. parseInt10 val = Some b \<and> 0 < b \<longrightarrow> setBPM val s = s\<lparr>bpm := real_of_int b\<rparr>)
   \<and> (parseInt10 val = None \<longrightarrow> setBPM val s = s)
   \<and> (\<forall>b. parseInt10 val = Some b \<and> b \<le> 0 \<longrightarrow> setBPM val s = s)
   \<and> (bpm (setBPM val s) \<noteq> bpm s \<longrightarrow> (\<exists>b. parseInt10 val = Some b \<and> 0 < b))"
  by (auto simp: setBPM_def split: option.splits)

lemma parseInt10_examples:
  "parseInt10 ''140'' = Some 140" "parseInt10 ''  90bpm'' = Some 90"
  "parseInt10 ''abc'' = None" "parseInt10 '''' = None"
  "parseInt10 ''0'' = Some 0" "parseInt10 ''-20'' = Some (- 20)"
  by (simp_all add: parseInt10_def isWhiteSpace_def isDigit_def digitsValue_def Let_def)

theorem setBPM_guard_witness:
  "bpm (setBPM ''140'' playingState) = 140
   \<and> bpm (setBPM ''  90bpm'' playingState) = 90
   \<and> setBPM ''abc'' playingState = playingState
   \<and> setBPM '''' playingState = playingState
   \<and> setBPM ''0'' playingState = playingState
   \<and> setBPM ''-20'' playingState = playingState"
  using setBPM_guard [of "''140''" playingState] setBPM_guard [of "''  90bpm''" playingState]
    setBPM_guard [of "''abc''" playingState] setBPM_guard [of "''''" playingState]
    setBPM_guard [of "''0''" playingState] setBPM_guard [of "''-20''" playingState]
  by (simp add: parseInt10_examples)

section \<open>Properties of the graph\<close>

subsection \<open>Event ids\<close>

lemma digit_char_cases:
  "d < 10 \<Longrightarrow> digit_char d \<in> set ''0123456789'' \<and> int (of_char (digit_char d)) - 48 = int d"
proof -
  assume "d < 10"
  then have "d \<in> {0, 1, 2, 3, 4, 5, 6, 7, 8, 9}" by auto
  then show ?thesis by (auto simp: digit_char_def)
qed

lemma set_string_of_nat: "set (string_of_nat n) \<subseteq> set ''0123456789''"
proof (induction n rule: string_of_nat.induct)
  case (1 n)
  show ?case
  proof (cases "n < 10")
    case True
    then show ?thesis using digit_char_cases [of n] by (subst string_of_nat.simps) simp
  next
    case False
    then show ?thesis using 1 digit_char_cases [of "n mod 10"]
      by (subst string_of_nat.simps) simp
  qed
qed

lemma digitsValue_snoc: "digitsValue (ds @ [c]) = 10 * digitsValue ds + (int (of_char c) - 48)"
  by (simp add: digitsValue_def)

lemma digitsValue_string_of_nat: "digitsValue (string_of_nat n) = int n"
proof (induction n rule: string_of_nat.induct)
  case (1 n)
  show ?case
  proof (cases "n < 10")
    case True
    then show ?thesis using digit_char_cases [of n]
      by (subst string_of_nat.simps) (simp add: digitsValue_def)
  next
    case False
    then have "digitsValue (string_of_nat n) =
        10 * digitsValue (string_of_nat (n div 10)) + int (n mod 10)"
      using digit_char_cases [of "n mod 10"]
      by (subst string_of_nat.simps) (simp add: digitsValue_snoc)
    also have "\<dots> = int n" using 1 False by (simp add: zmod_int zdiv_int)
    finally show ?thesis .
  qed
qed

lemma string_of_nat_inj:
  assumes "string_of_nat a = string_of_nat b"
  shows "a = b"
proof -
  have "int a = digitsValue (string_of_nat a)" by (simp only: digitsValue_string_of_nat)
  also have "\<dots> = digitsValue (string_of_nat b)" by (simp only: assms)
  also have "\<dots> = int b" by (simp only: digitsValue_string_of_nat)
  finally show ?thesis by simp
qed

lemma at_free_string_of_nat: "CHR ''@'' \<notin> set (string_of_nat n)"
  using set_string_of_nat [of n] by auto

lemma split_at_first:
  "x \<notin> set a \<Longrightarrow> x \<notin> set a' \<Longrightarrow> a @ x # b = a' @ x # b' \<Longrightarrow> a = a' \<and> b = b'"
proof (induction a arbitrary: a')
  case Nil
  then show ?case by (cases a') auto
next
  case (Cons y ys)
  then show ?case by (cases a') auto
qed

lemma split_at_last:
  assumes "x \<notin> set b" "x \<notin> set b'" "a @ x # b = a' @ x # b'"
  shows "a = a' \<and> b = b'"
proof -
  have "rev (a @ x # b) = rev (a' @ x # b')" using assms(3) by simp
  then have "rev b @ x # rev a = rev b' @ x # rev a'" by simp
  with assms(1,2) have "rev b = rev b' \<and> rev a = rev a'"
    by (intro split_at_first [of x]) simp_all
  then show ?thesis by simp
qed

lemma eventId_inj: "eventId n s = eventId n' s' \<Longrightarrow> n = n' \<and> s = s'"
  unfolding eventId_def
  using split_at_last [of "CHR ''@''" "string_of_nat s" "string_of_nat s'" n n']
    at_free_string_of_nat string_of_nat_inj by auto

lemma eventId_not_BALL: "eventId n s \<noteq> BALL"
proof
  assume "eventId n s = BALL"
  then have "CHR ''@'' \<in> set BALL" unfolding eventId_def by (metis in_set_conv_decomp append_Cons)
  then show False by (simp add: BALL_def)
qed


subsection \<open>Changes of single nodes\<close>

lemma updNode_fields [simp]:
  "edges (updNode i f g) = edges g" "fits (updNode i f g) = fits g"
  "clientWidth (updNode i f g) = clientWidth g" "clientHeight (updNode i f g) = clientHeight g"
  "nodes (updNode i f g) j = (if j = i then map_option f (nodes g j) else nodes g j)"
  by (auto simp: updNode_def split: option.splits)

lemma dom_updNode [simp]: "dom (nodes (updNode i f g)) = dom (nodes g)"
  by (auto simp: updNode_def split: option.splits)

lemma frame_updNode [simp]: "frame (updNode i f g) = frame g"
  by (simp add: frame_def)

lemma frame_fold:
  assumes "\<And>x g. frame (f x g) = frame g"
  shows "frame (fold f xs g) = frame g"
  by (induction xs arbitrary: g) (simp_all add: assms)

lemma containerW_frame: "frame g' = frame g \<Longrightarrow> containerW g' = containerW g"
  by (simp add: frame_def containerW_def)

lemma containerH_frame: "frame g' = frame g \<Longrightarrow> containerH g' = containerH g"
  by (simp add: frame_def containerH_def)

lemma nodes_setPosition:
  "nodes (setPosition i p g) j =
     (if j = i then map_option (\<lambda>nd. nd\<lparr>position := p\<rparr>) (nodes g j) else nodes g j)"
  by (simp add: setPosition_def)

lemma nodes_fold_setPosition:
  "nodes (fold (\<lambda>x. setPosition (k x) (p x)) xs g) j =
     map_option (\<lambda>nd. if filter (\<lambda>x. k x = j) xs = [] then nd
                       else nd\<lparr>position := p (last (filter (\<lambda>x. k x = j) xs))\<rparr>)
       (nodes g j)"
proof (induction xs rule: rev_induct)
  case Nil
  show ?case by (simp add: option.map_ident)
next
  case (snoc x xs)
  let ?g = "fold (\<lambda>x. setPosition (k x) (p x)) xs g"
  have step: "nodes (fold (\<lambda>x. setPosition (k x) (p x)) (xs @ [x]) g) j =
      (if j = k x then map_option (\<lambda>nd. nd\<lparr>position := p x\<rparr>) (nodes ?g j) else nodes ?g j)"
    by (simp add: nodes_setPosition)
  show ?case
  proof (cases "j = k x")
    case True
    then show ?thesis unfolding step snoc by (cases "nodes g (k x)") simp_all
  next
    case False
    then have f: "filter (\<lambda>y. k y = j) (xs @ [x]) = filter (\<lambda>y. k y = j) xs" by auto
    from False show ?thesis unfolding step snoc f by simp
  qed
qed

lemma nodes_fold_setPosition_other:
  "j \<notin> k ` set xs \<Longrightarrow> nodes (fold (\<lambda>x. setPosition (k x) (p x)) xs g) j = nodes g j"
proof -
  assume "j \<notin> k ` set xs"
  then have "filter (\<lambda>x. k x = j) xs = []" by (auto simp: filter_empty_conv)
  then show ?thesis by (simp add: nodes_fold_setPosition option.map_ident)
qed

lemma filter_unique:
  "distinct (map k xs) \<Longrightarrow> x \<in> set xs \<Longrightarrow> filter (\<lambda>y. k y = k x) xs = [x]"
proof (induction xs)
  case Nil
  then show ?case by simp
next
  case (Cons a xs)
  show ?case
  proof (cases "a = x")
    case True
    then have "k x \<notin> k ` set xs" using Cons.prems by simp
    then have "filter (\<lambda>y. k y = k x) xs = []"
      unfolding filter_empty_conv by (metis imageI)
    with True show ?thesis by simp
  next
    case False
    then have "k a \<noteq> k x" using Cons.prems by auto
    with False Cons show ?thesis by simp
  qed
qed

lemma nodes_fold_setPosition_unique:
  assumes "distinct (map k xs)" "x \<in> set xs"
  shows "nodes (fold (\<lambda>x. setPosition (k x) (p x)) xs g) (k x) =
     map_option (\<lambda>nd. nd\<lparr>position := p x\<rparr>) (nodes g (k x))"
  by (simp add: nodes_fold_setPosition filter_unique [OF assms])


subsection \<open>The structure of the chord groups\<close>

lemma in_buildChordGroups:
  "(step, grp) \<in> set (buildChordGroups G) \<longleftrightarrow>
     step < STEPS \<and> activePitches G step \<noteq> [] \<and> grp = chordAt G step"
  by (auto simp: buildChordGroups_eq)

lemma distinct_steps: "distinct (map fst (buildChordGroups G))"
  by (simp add: buildChordGroups_eq comp_def)

lemma sorted_steps: "sorted (map fst (buildChordGroups G))"
  by (simp add: buildChordGroups_eq comp_def sorted_wrt_filter)

lemma distinct_NOTES: "distinct NOTES"
  by (simp add: NOTES_def)

lemma chordAt_fields:
  "chordNotes (chordAt G s) = activePitches G s"
  "nodeIds (chordAt G s) = map (\<lambda>n. eventId n s) (activePitches G s)"
  "anchor (chordAt G s) = last (activePitches G s)"
  "anchorId (chordAt G s) = eventId (last (activePitches G s)) s"
  by (simp_all add: chordAt_def)

lemma distinct_nodeIds: "distinct (nodeIds (chordAt G s))"
  unfolding chordAt_fields activePitches_def
  by (rule distinct_map [THEN iffD2])
    (auto simp: distinct_NOTES inj_on_def dest: eventId_inj)

lemma anchorId_last:
  "activePitches G s \<noteq> [] \<Longrightarrow> anchorId (chordAt G s) = last (nodeIds (chordAt G s))"
  by (simp add: chordAt_fields last_map)

lemma anchorId_in_nodeIds:
  "activePitches G s \<noteq> [] \<Longrightarrow> anchorId (chordAt G s) \<in> set (nodeIds (chordAt G s))"
  by (simp add: anchorId_last chordAt_fields)

lemma nodeIds_step:
  "j \<in> set (nodeIds (chordAt G s)) \<Longrightarrow> j \<in> set (nodeIds (chordAt G s')) \<Longrightarrow> s = s'"
  by (auto simp: chordAt_fields dest: eventId_inj)

lemma distinct_anchorIds: "distinct (map (anchorId \<circ> snd) (buildChordGroups G))"
proof -
  have "map (anchorId \<circ> snd) (buildChordGroups G) =
      map (\<lambda>s. eventId (last (activePitches G s)) s)
        (filter (\<lambda>s. activePitches G s \<noteq> []) [0..<STEPS])"
    by (simp add: buildChordGroups_eq comp_def chordAt_fields)
  moreover have "distinct \<dots>"
    by (rule distinct_map [THEN iffD2]) (auto simp: inj_on_def dest: eventId_inj)
  ultimately show ?thesis by simp
qed

lemma eventIds_not_BALL: "BALL \<notin> eventIds (buildChordGroups G)"
  by (auto simp: eventIds_def in_buildChordGroups chordAt_fields eventId_not_BALL [symmetric])

subsection \<open>The layout pass\<close>

lemma frame_snapStack: "snapStack step grp g = Some g' \<Longrightarrow> frame g' = frame g"
  by (auto simp: snapStack_def Let_def setPosition_def case_prod_unfold
      intro!: frame_fold split: if_splits option.splits)

lemma frame_snapChordStacks: "snapChordStacks cgs g = Some g' \<Longrightarrow> frame g' = frame g"
proof (induction cgs arbitrary: g)
  case Nil
  then show ?case by simp
next
  case (Cons x cgs)
  obtain step grp where x: "x = (step, grp)" by (cases x)
  from Cons.prems obtain g1 where 1: "snapStack step grp g = Some g1"
    and 2: "snapChordStacks cgs g1 = Some g'"
    by (auto simp: x split: option.splits)
  from Cons.IH [OF 2] frame_snapStack [OF 1] show ?case by simp
qed

lemma frame_fit: "frame (fit p g) = (edges g, fits g @ [p], clientWidth g, clientHeight g, dom (nodes g))"
  by (simp add: frame_def fit_def)

lemma frame_positionNodes:
  assumes "positionNodes seq cgs g = Some g'"
  shows "frame g' = (edges g, fits g @ [40], clientWidth g, clientHeight g, dom (nodes g))"
proof -
  let ?g1 = "fold (\<lambda>(step, grp) g'. setPosition (anchorId grp) (anchorPosition g (length seq) step) g') seq g"
  have 1: "frame ?g1 = frame g"
    by (rule frame_fold) (simp add: case_prod_unfold setPosition_def)
  from assms obtain g2 where 2: "snapChordStacks cgs ?g1 = Some g2" and 3: "g' = fit 40 g2"
    by (auto simp: positionNodes_def Let_def split: option.splits)
  from frame_snapChordStacks [OF 2] 1 have "frame g2 = frame g" by simp
  then show ?thesis unfolding 3 frame_fit by (simp add: frame_def)
qed

lemma filter_enumerate_last:
  assumes "distinct ids" "ids \<noteq> []"
  shows "filter (\<lambda>x. snd x = last ids) (List.enumerate 0 ids) = [(length ids - 1, last ids)]"
proof -
  have "(length ids - 1, last ids) \<in> set (List.enumerate 0 ids)"
    using assms(2) by (simp add: in_set_enumerate_eq last_conv_nth)
  from filter_unique [of snd, OF _ this] assms(1) show ?thesis by simp
qed

lemma snapStack_result:
  assumes a: "anchorId grp = last (nodeIds grp)" and d: "distinct (nodeIds grp)"
    and ex: "nodes g (anchorId grp) \<noteq> None"
  shows "\<exists>g'. snapStack step grp g = Some g'
     \<and> (\<forall>j. (j \<in> set (nodeIds grp) \<longrightarrow> j = anchorId grp) \<longrightarrow> nodes g' j = nodes g j)"
proof (cases "length (nodeIds grp) \<le> 1")
  case True
  then show ?thesis by (simp add: snapStack_def)
next
  case False
  then have ne: "nodeIds grp \<noteq> []" by auto
  from ex obtain a0 where a0: "nodes g (anchorId grp) = Some a0" by auto
  define Q where "Q = (\<lambda>x :: nat \<times> string.
      (fst (position a0) + real (length (nodeIds grp) - 1 - fst x) * NODE_STACK_SPACING * cos (stepAngle step),
       snd (position a0) + real (length (nodeIds grp) - 1 - fst x) * NODE_STACK_SPACING * sin (stepAngle step)))"
  define g' where "g' = fold (\<lambda>x. setPosition (snd x) (Q x)) (List.enumerate 0 (nodeIds grp)) g"
  have s: "snapStack step grp g = Some g'"
    using False a0 by (simp add: snapStack_def Let_def g'_def Q_def case_prod_unfold)
  have "nodes g' j = nodes g j" if j: "j \<in> set (nodeIds grp) \<longrightarrow> j = anchorId grp" for j
  proof (cases "j \<in> set (nodeIds grp)")
    case False
    then have "j \<notin> snd ` set (List.enumerate 0 (nodeIds grp))"
      by (metis list.set_map map_snd_enumerate)
    then show ?thesis unfolding g'_def by (rule nodes_fold_setPosition_other)
  next
    case True
    with j a have jl: "j = last (nodeIds grp)" by simp
    have q: "Q (length (nodeIds grp) - Suc 0, last (nodeIds grp)) = position a0"
      by (simp add: Q_def)
    show ?thesis
      unfolding g'_def nodes_fold_setPosition jl filter_enumerate_last [OF d ne]
      using a0 a by (simp add: q)
  qed
  with s show ?thesis by blast
qed

lemma snapChordStacks_result:
  assumes "\<forall>(step, grp) \<in> set cgs. anchorId grp = last (nodeIds grp) \<and> distinct (nodeIds grp)
      \<and> nodes g (anchorId grp) \<noteq> None"
  shows "\<exists>g'. snapChordStacks cgs g = Some g'
     \<and> (\<forall>j. (\<forall>(step, grp) \<in> set cgs. j \<in> set (nodeIds grp) \<longrightarrow> j = anchorId grp) \<longrightarrow>
            nodes g' j = nodes g j)"
  using assms
proof (induction cgs arbitrary: g)
  case Nil
  then show ?case by simp
next
  case (Cons x cgs)
  obtain step grp where x: "x = (step, grp)" by (cases x)
  have "(step, grp) \<in> set (x # cgs)" by (simp add: x)
  with Cons.prems have "anchorId grp = last (nodeIds grp) \<and> distinct (nodeIds grp)
      \<and> nodes g (anchorId grp) \<noteq> None"
    by blast
  then have h: "anchorId grp = last (nodeIds grp)" "distinct (nodeIds grp)"
      "nodes g (anchorId grp) \<noteq> None"
    by blast+
  from snapStack_result [OF h, of step] obtain g1 where
    1: "snapStack step grp g = Some g1"
    and n1: "\<And>j. (j \<in> set (nodeIds grp) \<longrightarrow> j = anchorId grp) \<Longrightarrow> nodes g1 j = nodes g j"
    by blast
  have "dom (nodes g1) = dom (nodes g)" using frame_snapStack [OF 1] by (simp add: frame_def)
  then have "\<forall>(step, grp) \<in> set cgs. anchorId grp = last (nodeIds grp) \<and> distinct (nodeIds grp)
      \<and> nodes g1 (anchorId grp) \<noteq> None"
    using Cons.prems by (auto simp: dom_def set_eq_iff)
  from Cons.IH [OF this] obtain g' where
    2: "snapChordStacks cgs g1 = Some g'"
    and n2: "\<And>j. (\<forall>(step, grp) \<in> set cgs. j \<in> set (nodeIds grp) \<longrightarrow> j = anchorId grp) \<Longrightarrow>
            nodes g' j = nodes g1 j"
    by blast
  have "snapChordStacks (x # cgs) g = Some g'" by (simp add: x 1 2)
  moreover have "nodes g' j = nodes g j"
    if "\<forall>(step, grp) \<in> set (x # cgs). j \<in> set (nodeIds grp) \<longrightarrow> j = anchorId grp" for j
    using that n1 [of j] n2 [of j] by (simp add: x)
  ultimately show ?case by blast
qed


lemma groups_layout_ready:
  assumes "eventIds (buildChordGroups G) \<subseteq> dom (nodes g)"
  shows "\<forall>(step, grp) \<in> set (buildChordGroups G).
      anchorId grp = last (nodeIds grp) \<and> distinct (nodeIds grp) \<and> nodes g (anchorId grp) \<noteq> None"
proof (intro ballI, clarify)
  fix step grp assume m: "(step, grp) \<in> set (buildChordGroups G)"
  then have g: "grp = chordAt G step" and ne: "activePitches G step \<noteq> []"
    by (simp_all add: in_buildChordGroups)
  have "anchorId grp \<in> eventIds (buildChordGroups G)"
    unfolding eventIds_def using m anchorId_in_nodeIds [OF ne] g by blast
  with assms have "nodes g (anchorId grp) \<noteq> None" by blast
  then show "anchorId grp = last (nodeIds grp) \<and> distinct (nodeIds grp)
      \<and> nodes g (anchorId grp) \<noteq> None"
    using anchorId_last [OF ne] distinct_nodeIds [of G step] g by simp
qed

lemma anchor_protected:
  assumes "(step, grp) \<in> set (buildChordGroups G)"
  shows "\<forall>(step', grp') \<in> set (buildChordGroups G).
      anchorId grp \<in> set (nodeIds grp') \<longrightarrow> anchorId grp = anchorId grp'"
proof (intro ballI, clarify)
  fix step' grp'
  assume m': "(step', grp') \<in> set (buildChordGroups G)" and i: "anchorId grp \<in> set (nodeIds grp')"
  from assms have g: "grp = chordAt G step" and ne: "activePitches G step \<noteq> []"
    by (simp_all add: in_buildChordGroups)
  from m' have g': "grp' = chordAt G step'" by (simp add: in_buildChordGroups)
  from nodeIds_step [OF anchorId_in_nodeIds [OF ne]] i have "step = step'"
    unfolding g g' by blast
  then show "anchorId grp = anchorId grp'" by (simp add: g g')
qed

lemma positionNodes_layout:
  assumes "eventIds (buildChordGroups G) \<subseteq> dom (nodes g)"
  shows "\<exists>g'. positionNodes (buildChordGroups G) (buildChordGroups G) g = Some g'
     \<and> (\<forall>j. j \<notin> eventIds (buildChordGroups G) \<longrightarrow> nodes g' j = nodes g j)
     \<and> (\<forall>(step, grp) \<in> set (buildChordGroups G).
          nodes g' (anchorId grp) =
            map_option (\<lambda>nd. nd\<lparr>position := anchorPosition g (length (buildChordGroups G)) step\<rparr>)
              (nodes g (anchorId grp)))"
proof -
  let ?L = "buildChordGroups G"
  let ?P = "anchorPosition g (length ?L)"
  define g1 where "g1 = fold (\<lambda>x. setPosition ((anchorId \<circ> snd) x) (?P (fst x))) ?L g"
  have g1: "fold (\<lambda>(step, grp) g'. setPosition (anchorId grp) (?P step) g') ?L g = g1"
    by (simp add: g1_def case_prod_unfold)
  have dom1: "dom (nodes g1) = dom (nodes g)"
    using frame_fold [of "\<lambda>x. setPosition ((anchorId \<circ> snd) x) (?P (fst x))" ?L g]
    by (simp add: g1_def frame_def setPosition_def)
  have "\<forall>(step, grp) \<in> set ?L.
      anchorId grp = last (nodeIds grp) \<and> distinct (nodeIds grp) \<and> nodes g1 (anchorId grp) \<noteq> None"
    by (rule groups_layout_ready) (simp add: dom1 assms)
  from snapChordStacks_result [OF this] obtain g2 where
    2: "snapChordStacks ?L g1 = Some g2"
    and n2: "\<And>j. (\<forall>(step, grp) \<in> set ?L. j \<in> set (nodeIds grp) \<longrightarrow> j = anchorId grp) \<Longrightarrow>
            nodes g2 j = nodes g1 j"
    by blast
  have p: "positionNodes ?L ?L g = Some (fit 40 g2)"
    by (simp add: positionNodes_def Let_def g1 2)
  have a: "nodes (fit 40 g2) j = nodes g j" if "j \<notin> eventIds ?L" for j
  proof -
    from that have "\<forall>(step, grp) \<in> set ?L. j \<notin> set (nodeIds grp)"
      by (auto simp: eventIds_def)
    then have "nodes g2 j = nodes g1 j" by (intro n2) blast
    moreover have "j \<notin> (anchorId \<circ> snd) ` set ?L"
    proof
      assume "j \<in> (anchorId \<circ> snd) ` set ?L"
      then obtain step grp where m: "(step, grp) \<in> set ?L" and j: "j = anchorId grp" by auto
      from m have "activePitches G step \<noteq> []" "grp = chordAt G step"
        by (simp_all add: in_buildChordGroups)
      with anchorId_in_nodeIds [of G step] j have "j \<in> set (nodeIds grp)" by simp
      with m that show False by (auto simp: eventIds_def)
    qed
    then have "nodes g1 j = nodes g j" unfolding g1_def by (rule nodes_fold_setPosition_other)
    ultimately show ?thesis by (simp add: fit_def)
  qed
  have b: "nodes (fit 40 g2) (anchorId grp) =
      map_option (\<lambda>nd. nd\<lparr>position := ?P step\<rparr>) (nodes g (anchorId grp))"
    if m: "(step, grp) \<in> set ?L" for step grp
  proof -
    have "nodes g2 (anchorId grp) = nodes g1 (anchorId grp)"
      using anchor_protected [OF m] by (intro n2) blast
    moreover have "nodes g1 ((anchorId \<circ> snd) (step, grp)) =
        map_option (\<lambda>nd. nd\<lparr>position := ?P (fst (step, grp))\<rparr>) (nodes g ((anchorId \<circ> snd) (step, grp)))"
      unfolding g1_def by (rule nodes_fold_setPosition_unique [OF distinct_anchorIds m])
    ultimately show ?thesis by (simp add: fit_def)
  qed
  from p a b show ?thesis by blast
qed


subsection \<open>The rebuild of the graph\<close>

lemma buildStepSequence_fold:
  "fold (\<lambda>s acc. (case map_of cgs s of None \<Rightarrow> acc | Some grp \<Rightarrow> acc @ [(s, grp)])) xs acc =
     acc @ concat (map (\<lambda>s. case map_of cgs s of None \<Rightarrow> [] | Some grp \<Rightarrow> [(s, grp)]) xs)"
  by (induction xs arbitrary: acc) (auto split: option.splits)

lemma buildStepSequence_buildChordGroups:
  "buildStepSequence (buildChordGroups G) = buildChordGroups G"
proof -
  have "concat (map (\<lambda>s. case map_of (buildChordGroups G) s of None \<Rightarrow> [] | Some grp \<Rightarrow> [(s, grp)]) xs) =
      map (\<lambda>s. (s, chordAt G s)) (filter (\<lambda>s. activePitches G s \<noteq> []) xs)"
    if "set xs \<subseteq> {0..<STEPS}" for xs
    using that by (induction xs) (auto simp: map_of_buildChordGroups)
  from this [of "[0..<STEPS]"] show ?thesis
    by (simp add: buildStepSequence_def buildStepSequence_fold buildChordGroups_eq)
qed

lemma nodes_hideBall:
  "nodes (hideBall g) j =
     (if j = BALL then map_option (\<lambda>nd. nd\<lparr>animation := None, opacity := Some 0\<rparr>) (nodes g j)
      else nodes g j)"
  by (cases "nodes g BALL") (auto simp: hideBall_def setOpacity_def stopNode_def)

lemma frame_hideBall: "frame (hideBall g) = frame g"
  by (simp add: hideBall_def setOpacity_def stopNode_def)

lemma addEventNode_result:
  "edges (addEventNode r step note ident g) = edges g
   \<and> fits (addEventNode r step note ident g) = fits g
   \<and> clientWidth (addEventNode r step note ident g) = clientWidth g
   \<and> clientHeight (addEventNode r step note ident g) = clientHeight g
   \<and> dom (nodes (addEventNode r step note ident g)) = insert ident (dom (nodes g))
   \<and> (\<forall>j nd. nodes g j = Some nd \<longrightarrow> nodes (addEventNode r step note ident g) j = Some nd)"
  by (auto simp: addEventNode_def Let_def)

lemma addEventNodes_fold:
  "edges (fold (\<lambda>(note, ident). addEventNode r step note ident) zs g) = edges g
   \<and> fits (fold (\<lambda>(note, ident). addEventNode r step note ident) zs g) = fits g
   \<and> clientWidth (fold (\<lambda>(note, ident). addEventNode r step note ident) zs g) = clientWidth g
   \<and> clientHeight (fold (\<lambda>(note, ident). addEventNode r step note ident) zs g) = clientHeight g
   \<and> dom (nodes (fold (\<lambda>(note, ident). addEventNode r step note ident) zs g)) =
       dom (nodes g) \<union> snd ` set zs
   \<and> (\<forall>j nd. nodes g j = Some nd \<longrightarrow>
         nodes (fold (\<lambda>(note, ident). addEventNode r step note ident) zs g) j = Some nd)"
proof (induction zs arbitrary: g)
  case Nil
  show ?case by simp
next
  case (Cons z zs)
  obtain nt ident where z: "z = (nt, ident)" by (cases z)
  show ?case
    using addEventNode_result [of r step nt ident g]
    by (simp add: z Cons)
qed

lemma addEventNodes_result:
  "edges (addEventNodes r step grp g) = edges g \<and> fits (addEventNodes r step grp g) = fits g
   \<and> clientWidth (addEventNodes r step grp g) = clientWidth g
   \<and> clientHeight (addEventNodes r step grp g) = clientHeight g
   \<and> dom (nodes (addEventNodes r step grp g)) =
       dom (nodes g) \<union> snd ` set (zip (chordNotes grp) (nodeIds grp))
   \<and> (\<forall>j nd. nodes g j = Some nd \<longrightarrow> nodes (addEventNodes r step grp g) j = Some nd)"
  unfolding addEventNodes_def by (rule addEventNodes_fold)


lemma zip_map_ids: "snd ` set (zip xs (map f xs)) = f ` set xs"
  by (induction xs) auto

lemma addEventNodes_groups:
  "edges (fold (\<lambda>(step, grp). addEventNodes r step grp) cgs g) = edges g
   \<and> fits (fold (\<lambda>(step, grp). addEventNodes r step grp) cgs g) = fits g
   \<and> clientWidth (fold (\<lambda>(step, grp). addEventNodes r step grp) cgs g) = clientWidth g
   \<and> clientHeight (fold (\<lambda>(step, grp). addEventNodes r step grp) cgs g) = clientHeight g
   \<and> dom (nodes (fold (\<lambda>(step, grp). addEventNodes r step grp) cgs g)) =
       dom (nodes g) \<union> (\<Union>(step, grp) \<in> set cgs. snd ` set (zip (chordNotes grp) (nodeIds grp)))
   \<and> (\<forall>j nd. nodes g j = Some nd \<longrightarrow>
         nodes (fold (\<lambda>(step, grp). addEventNodes r step grp) cgs g) j = Some nd)"
proof (induction cgs arbitrary: g)
  case Nil
  show ?case by simp
next
  case (Cons x cgs)
  obtain step grp where x: "x = (step, grp)" by (cases x)
  show ?case
    using addEventNodes_result [of r step grp g]
    by (simp add: x Cons Un_assoc)
qed

lemma zip_ids_buildChordGroups:
  "(\<Union>(step, grp) \<in> set (buildChordGroups G). snd ` set (zip (chordNotes grp) (nodeIds grp))) =
     eventIds (buildChordGroups G)"
proof -
  have "(case x of (step, grp) \<Rightarrow> snd ` set (zip (chordNotes grp) (nodeIds grp))) =
      (case x of (step, grp) \<Rightarrow> set (nodeIds grp))"
    if "x \<in> set (buildChordGroups G)" for x
  proof -
    obtain step grp where x: "x = (step, grp)" by (cases x)
    with that have "grp = chordAt G step" by (simp add: in_buildChordGroups)
    then show ?thesis by (simp add: x chordAt_fields zip_map_ids)
  qed
  then show ?thesis unfolding eventIds_def by (rule SUP_cong [OF refl])
qed

lemma eventIds_empty: "eventIds (buildChordGroups G) = {} \<longleftrightarrow> buildChordGroups G = []"
proof
  assume e: "eventIds (buildChordGroups G) = {}"
  show "buildChordGroups G = []"
  proof (cases "buildChordGroups G")
    case Nil
    then show ?thesis .
  next
    case (Cons x xs)
    obtain step grp where x: "x = (step, grp)" by (cases x)
    then have m: "(step, grp) \<in> set (buildChordGroups G)" by (simp add: Cons)
    then have "activePitches G step \<noteq> []" "grp = chordAt G step"
      by (simp_all add: in_buildChordGroups)
    with anchorId_in_nodeIds [of G step] m e show ?thesis by (auto simp: eventIds_def)
  qed
qed (simp add: eventIds_def)

lemma set_activeIds:
  "set (remdups (concat (map (\<lambda>(step, grp). nodeIds grp) cgs))) = eventIds cgs"
  by (auto simp: eventIds_def)

lemma anchorPosition_cong:
  "clientWidth g' = clientWidth g \<Longrightarrow> clientHeight g' = clientHeight g \<Longrightarrow>
   anchorPosition g' n step = anchorPosition g n step"
  by (simp add: anchorPosition_def layoutRadius_def containerW_def containerH_def)

text \<open>What \<^verbatim>\<open>updateGraph\<close> makes of a graph, for the chord groups \<open>L\<close> of the grid.\<close>

lemma updateGraph_result:
  assumes cy: "cy s = Some g"
  defines "L \<equiv> buildChordGroups (grid s)"
  shows "\<exists>g'. updateGraph s =
        Some (s\<lparr>chordGroups := L, stepSequence := L, prevPlayingNodes := [], cy := Some g'\<rparr>)
     \<and> edges g' = (if L = [] then [] else stackEdges L @ seqEdges L)
     \<and> fits g' = (if L = [] then fits g else fits g @ [40])
     \<and> clientWidth g' = clientWidth g \<and> clientHeight g' = clientHeight g
     \<and> dom (nodes g') = (dom (nodes g) \<inter> {BALL}) \<union> eventIds L
     \<and> nodes g' BALL = map_option (\<lambda>nd. nd\<lparr>animation := None, opacity := Some 0\<rparr>) (nodes g BALL)
     \<and> (\<forall>(step, grp) \<in> set L.
          map_option position (nodes g' (anchorId grp)) = Some (anchorPosition g (length L) step))"
proof -
  define ids where "ids = remdups (concat (map (\<lambda>(step, grp). nodeIds grp) L))"
  define g1 where "g1 = hideBall (g\<lparr>edges := []\<rparr>)"
  define g2 where "g2 = removeStale ids g1"
  define r where "r = min (containerW g2) (containerH g2) * 0.35"
  define g3 where "g3 = fold (\<lambda>(step, grp). addEventNodes r step grp) L g2"
  define s1 where "s1 = s\<lparr>chordGroups := L, stepSequence := L, prevPlayingNodes := []\<rparr>"
  have ids: "set ids = eventIds L" unfolding ids_def by (rule set_activeIds)
  have len: "length ids = 0 \<longleftrightarrow> L = []"
    using ids eventIds_empty [of "grid s"] by (auto simp: L_def)
  have upd: "updateGraph s =
      (if L = [] then Some (s1\<lparr>cy := Some g3\<rparr>)
       else (case positionNodes L L (g3\<lparr>edges := stackEdges L @ seqEdges L\<rparr>) of
               None \<Rightarrow> None | Some g4 \<Rightarrow> Some (s1\<lparr>cy := Some g4\<rparr>)))"
    unfolding updateGraph_def cy option.case Let_def buildStepSequence_buildChordGroups
    unfolding L_def [symmetric]
    unfolding ids_def [symmetric] g1_def [symmetric]
    unfolding g2_def [symmetric]
    unfolding r_def [symmetric]
    unfolding g3_def [symmetric] s1_def [symmetric]
    by (simp only: len)
  have f1: "edges g1 = []" "fits g1 = fits g" "clientWidth g1 = clientWidth g"
    "clientHeight g1 = clientHeight g" "dom (nodes g1) = dom (nodes g)"
    using frame_hideBall [of "g\<lparr>edges := []\<rparr>"] by (simp_all add: g1_def frame_def)
  have n1: "nodes g1 BALL = map_option (\<lambda>nd. nd\<lparr>animation := None, opacity := Some 0\<rparr>) (nodes g BALL)"
    by (simp add: g1_def nodes_hideBall)
  have f2: "edges g2 = []" "fits g2 = fits g" "clientWidth g2 = clientWidth g"
    "clientHeight g2 = clientHeight g" "nodes g2 BALL = nodes g1 BALL"
    by (simp_all add: g2_def removeStale_def f1)
  have d2: "dom (nodes g2) = dom (nodes g) \<inter> ({BALL} \<union> eventIds L)"
    using f1(5) by (auto simp: g2_def removeStale_def ids dom_def split: if_splits)
  from addEventNodes_groups [of r L g2]
  have f3: "edges g3 = []" "fits g3 = fits g" "clientWidth g3 = clientWidth g"
    "clientHeight g3 = clientHeight g"
    and d3: "dom (nodes g3) = dom (nodes g2) \<union> eventIds L"
    and k3: "\<And>j nd. nodes g2 j = Some nd \<Longrightarrow> nodes g3 j = Some nd"
    by (simp_all add: g3_def f2 L_def zip_ids_buildChordGroups)
  have nb: "BALL \<notin> eventIds L" by (simp add: L_def eventIds_not_BALL)
  have b3: "nodes g3 BALL = nodes g2 BALL"
  proof (cases "nodes g2 BALL")
    case None
    then have "BALL \<notin> dom (nodes g3)" using d3 nb by auto
    with None show ?thesis by auto
  next
    case (Some nd)
    then show ?thesis by (simp add: k3)
  qed
  have dom3: "dom (nodes g3) = (dom (nodes g) \<inter> {BALL}) \<union> eventIds L"
    unfolding d3 d2 by auto
  show ?thesis
  proof (cases "L = []")
    case True
    then show ?thesis
      unfolding upd s1_def using f3 dom3 b3 f2(5) n1 by (intro exI [of _ g3]) simp
  next
    case False
    let ?g3 = "g3\<lparr>edges := stackEdges L @ seqEdges L\<rparr>"
    have sub: "eventIds (buildChordGroups (grid s)) \<subseteq> dom (nodes ?g3)"
      using dom3 by (auto simp: L_def)
    from positionNodes_layout [OF sub] obtain g4 where
      p: "positionNodes L L ?g3 = Some g4"
      and o: "\<And>j. j \<notin> eventIds L \<Longrightarrow> nodes g4 j = nodes ?g3 j"
      and a: "\<And>step grp. (step, grp) \<in> set L \<Longrightarrow> nodes g4 (anchorId grp) =
            map_option (\<lambda>nd. nd\<lparr>position := anchorPosition ?g3 (length L) step\<rparr>)
              (nodes ?g3 (anchorId grp))"
      unfolding L_def [symmetric] by blast
    from frame_positionNodes [OF p]
    have f4: "edges g4 = stackEdges L @ seqEdges L" "fits g4 = fits g @ [40]"
      "clientWidth g4 = clientWidth g" "clientHeight g4 = clientHeight g"
      "dom (nodes g4) = dom (nodes g3)"
      by (simp_all add: frame_def f3)
    have ap: "anchorPosition ?g3 (length L) step = anchorPosition g (length L) step" for step
      by (rule anchorPosition_cong) (simp_all add: f3)
    have pos: "map_option position (nodes g4 (anchorId grp)) = Some (anchorPosition g (length L) step)"
      if m: "(step, grp) \<in> set L" for step grp
    proof -
      from m have "activePitches (grid s) step \<noteq> []" "grp = chordAt (grid s) step"
        by (simp_all add: L_def in_buildChordGroups)
      with anchorId_in_nodeIds [of "grid s" step] m have "anchorId grp \<in> eventIds L"
        by (auto simp: eventIds_def)
      then obtain nd where "nodes g3 (anchorId grp) = Some nd" using dom3 by auto
      then show ?thesis by (simp add: a [OF m] ap)
    qed
    have "updateGraph s = Some (s1\<lparr>cy := Some g4\<rparr>)" using False by (simp add: upd p)
    moreover have "nodes g4 BALL = nodes g3 BALL" using o [OF nb] by simp
    ultimately show ?thesis
      unfolding s1_def using False f4 dom3 b3 f2(5) n1 pos by (intro exI [of _ g4]) auto
  qed
qed


subsection \<open>The sequence edges\<close>

lemma steps_increasing:
  assumes "i < j" "j < length (buildChordGroups G)"
  shows "fst (buildChordGroups G ! i) < fst (buildChordGroups G ! j)"
proof -
  have "sorted_wrt (<) (map fst (buildChordGroups G))"
    using sorted_steps [of G] distinct_steps [of G] by (simp add: strict_sorted_iff)
  from sorted_wrt_nth_less [OF this, of i j] assms show ?thesis by simp
qed

lemma steps_bounded: "i < length (buildChordGroups G) \<Longrightarrow> fst (buildChordGroups G ! i) < 16"
proof -
  assume "i < length (buildChordGroups G)"
  then have "buildChordGroups G ! i \<in> set (buildChordGroups G)" by simp
  then show ?thesis
    using in_buildChordGroups [of "fst (buildChordGroups G ! i)" "snd (buildChordGroups G ! i)" G]
    by (simp add: STEPS_def)
qed

lemma map_enumerate: "map f (List.enumerate 0 xs) = map (\<lambda>i. f (i, xs ! i)) [0..<length xs]"
proof (rule nth_equalityI)
  show "length (map f (List.enumerate 0 xs)) = length (map (\<lambda>i. f (i, xs ! i)) [0..<length xs])"
    by simp
next
  fix i assume "i < length (map f (List.enumerate 0 xs))"
  then have "i < length xs" by simp
  then show "map f (List.enumerate 0 xs) ! i = map (\<lambda>i. f (i, xs ! i)) [0..<length xs] ! i"
    by (simp add: nth_enumerate_eq)
qed

lemma seqEdges_buildChordGroups:
  assumes "2 \<le> length (buildChordGroups G)"
  defines "L \<equiv> buildChordGroups G"
  shows "seqEdges L =
     map (\<lambda>i. \<lparr>eid = ''seq-'' @ string_of_nat i, source = anchorId (snd (L ! i)),
               target = anchorId (snd (L ! ((i + 1) mod length L))),
               distSteps = Some (max (stepDistance (fst (L ! i)) (fst (L ! ((i + 1) mod length L)))) 1),
               seqIdx = Some i, etype = ''sequence''\<rparr>) [0..<length L]"
proof -
  have n: "2 \<le> length L" using assms by simp
  have d: "(if i < length L - 1 then int (fst (L ! ((i + 1) mod length L))) - int (fst (L ! i))
            else (int STEPS - int (fst (L ! i))) + int (fst (L ! ((i + 1) mod length L)))) =
           stepDistance (fst (L ! i)) (fst (L ! ((i + 1) mod length L)))"
    if i: "i < length L" for i
  proof (cases "i < length L - 1")
    case True
    then have m: "Suc i mod length L = Suc i" by simp
    have "fst (L ! i) < fst (L ! (i + 1))" "fst (L ! (i + 1)) < 16"
      unfolding L_def using True by (auto intro!: steps_increasing steps_bounded simp: L_def)
    then show ?thesis using True by (simp add: m stepDistance_def)
  next
    case False
    with i have e: "i = length L - 1" by simp
    with n have "i + 1 = length L" by arith
    then have m: "Suc i mod length L = 0" by simp
    have "fst (L ! 0) < fst (L ! i)" "fst (L ! i) < 16"
      unfolding L_def using n i e by (auto intro!: steps_increasing steps_bounded simp: L_def)
    then have "(int (fst (L ! 0)) - int (fst (L ! i))) mod 16 = int (fst (L ! 0)) - int (fst (L ! i)) + 16"
      by (intro mod_pos_pos_trivial [THEN trans [OF mod_add_self2 [symmetric]]]) auto
    then show ?thesis using False by (simp add: m stepDistance_def STEPS_def)
  qed
  have "seqEdges L =
      map (\<lambda>x. (\<lambda>(i, (step, grp)).
           (let nxt = L ! ((i + 1) mod length L);
                d = (if i < length L - 1 then int (fst nxt) - int step
                     else (int STEPS - int step) + int (fst nxt))
            in \<lparr>eid = ''seq-'' @ string_of_nat i,
                source = anchorId grp, target = anchorId (snd nxt),
                distSteps = Some (max d 1), seqIdx = Some i, etype = ''sequence''\<rparr>))
          (x, L ! x)) [0..<length L]"
    using n unfolding seqEdges_def Let_def map_enumerate by simp
  also have "\<dots> = map (\<lambda>i. \<lparr>eid = ''seq-'' @ string_of_nat i, source = anchorId (snd (L ! i)),
               target = anchorId (snd (L ! ((i + 1) mod length L))),
               distSteps = Some (max (stepDistance (fst (L ! i)) (fst (L ! ((i + 1) mod length L)))) 1),
               seqIdx = Some i, etype = ''sequence''\<rparr>) [0..<length L]"
  proof (rule map_cong [OF refl])
    fix i assume "i \<in> set [0..<length L]"
    then have i: "i < length L" by simp
    show "(\<lambda>(i, (step, grp)).
           (let nxt = L ! ((i + 1) mod length L);
                d = (if i < length L - 1 then int (fst nxt) - int step
                     else (int STEPS - int step) + int (fst nxt))
            in \<lparr>eid = ''seq-'' @ string_of_nat i,
                source = anchorId grp, target = anchorId (snd nxt),
                distSteps = Some (max d 1), seqIdx = Some i, etype = ''sequence''\<rparr>))
          (i, L ! i) =
        \<lparr>eid = ''seq-'' @ string_of_nat i, source = anchorId (snd (L ! i)),
               target = anchorId (snd (L ! ((i + 1) mod length L))),
               distSteps = Some (max (stepDistance (fst (L ! i)) (fst (L ! ((i + 1) mod length L)))) 1),
               seqIdx = Some i, etype = ''sequence''\<rparr>"
      unfolding case_prod_unfold Let_def fst_conv snd_conv d [OF i] by (rule refl)
  qed
  finally show ?thesis .
qed


lemma filter_sequence_edges:
  "filter (\<lambda>e. etype e = ''sequence'') (stackEdges L @ seqEdges L') = seqEdges L'"
proof -
  have "filter (\<lambda>e. etype e = ''sequence'') (stackEdges L) = []"
    by (auto simp: stackEdges_def filter_empty_conv)
  moreover have "filter (\<lambda>e. etype e = ''sequence'') (seqEdges L') = seqEdges L'"
    by (rule filter_True) (auto simp: seqEdges_def Let_def)
  ultimately show ?thesis by simp
qed

lemma seqEdges_short: "length L < 2 \<Longrightarrow> seqEdges L = []"
  by (simp add: seqEdges_def)

lemma onCellClick_result:
  fixes s :: state and nt :: string and st :: nat
  assumes "cy s = Some g"
  defines "L \<equiv> buildChordGroups (toggleCell nt st (grid s))"
  shows "\<exists>s' g'. onCellClick nt st s = Some s' \<and> cy s' = Some g'
     \<and> grid s' = toggleCell nt st (grid s) \<and> chordGroups s' = L \<and> stepSequence s' = L
     \<and> filter (\<lambda>e. etype e = ''sequence'') (edges g') = seqEdges L"
proof -
  let ?s = "s\<lparr>grid := toggleCell nt st (grid s)\<rparr>"
  have "cy ?s = Some g" using assms(1) by simp
  from updateGraph_result [OF this] obtain g' where
    u: "updateGraph ?s = Some (?s\<lparr>chordGroups := L, stepSequence := L, prevPlayingNodes := [], cy := Some g'\<rparr>)"
    and e: "edges g' = (if L = [] then [] else stackEdges L @ seqEdges L)"
    unfolding L_def by auto
  have "filter (\<lambda>e. etype e = ''sequence'') (edges g') = seqEdges L"
  proof (cases "L = []")
    case True
    then show ?thesis by (simp add: e seqEdges_short)
  next
    case False
    then show ?thesis by (simp only: e if_False filter_sequence_edges)
  qed
  with u show ?thesis by (simp add: onCellClick_def)
qed

text \<open>
  C6. A click on a cell, with the graph in place, returns; the chord groups and the
  step sequence are then those of the new grid. With two or more chord groups the
  sequence edges of the new graph are one for each chord, in the order of the steps,
  from its anchor to the anchor of the next chord, the last one going back to the
  first, with the forward distance between the two steps around the 16 steps of the
  loop, at least 1. The playback mode, the pending mode, the step order and the cursor
  have no part in the edges. With chords on the steps 0 and 8 only, the two distances
  are 8 and 8.
\<close>

theorem sequence_edges_forward_distance:
  fixes s :: state and nt :: string and st :: nat
  assumes "cy s = Some g"
  defines "L \<equiv> buildChordGroups (toggleCell nt st (grid s))"
  shows "\<exists>s' g'. onCellClick nt st s = Some s' \<and> cy s' = Some g'
     \<and> grid s' = toggleCell nt st (grid s) \<and> chordGroups s' = L \<and> stepSequence s' = L
     \<and> (2 \<le> length L \<longrightarrow>
          filter (\<lambda>e. etype e = ''sequence'') (edges g') =
            map (\<lambda>i. \<lparr>eid = ''seq-'' @ string_of_nat i, source = anchorId (snd (L ! i)),
                      target = anchorId (snd (L ! ((i + 1) mod length L))),
                      distSteps = Some (max (stepDistance (fst (L ! i))
                                               (fst (L ! ((i + 1) mod length L)))) 1),
                      seqIdx = Some i, etype = ''sequence''\<rparr>) [0..<length L])
     \<and> (\<forall>m p a q. \<exists>t h.
          onCellClick nt st (s\<lparr>playbackMode := m, pendingPlaybackMode := p,
            activeStepArray := a, seqPosition := q\<rparr>) = Some t
          \<and> cy t = Some h
          \<and> filter (\<lambda>e. etype e = ''sequence'') (edges h) =
              filter (\<lambda>e. etype e = ''sequence'') (edges g'))
     \<and> (map fst L = [0, 8] \<longrightarrow>
          map distSteps (filter (\<lambda>e. etype e = ''sequence'') (edges g')) = [Some 8, Some 8])"
proof -
  from onCellClick_result [OF assms(1), of nt st] obtain s' g' where
    r: "onCellClick nt st s = Some s'" "cy s' = Some g'" "grid s' = toggleCell nt st (grid s)"
      "chordGroups s' = L" "stepSequence s' = L"
    and e: "filter (\<lambda>e. etype e = ''sequence'') (edges g') = seqEdges L"
    unfolding L_def by blast
  have 1: "filter (\<lambda>e. etype e = ''sequence'') (edges g') =
            map (\<lambda>i. \<lparr>eid = ''seq-'' @ string_of_nat i, source = anchorId (snd (L ! i)),
                      target = anchorId (snd (L ! ((i + 1) mod length L))),
                      distSteps = Some (max (stepDistance (fst (L ! i))
                                               (fst (L ! ((i + 1) mod length L)))) 1),
                      seqIdx = Some i, etype = ''sequence''\<rparr>) [0..<length L]"
    if "2 \<le> length L"
    unfolding e L_def using that by (intro seqEdges_buildChordGroups) (simp add: L_def)
  have 2: "\<exists>t h. onCellClick nt st (s\<lparr>playbackMode := m, pendingPlaybackMode := p,
            activeStepArray := a, seqPosition := q\<rparr>) = Some t
          \<and> cy t = Some h
          \<and> filter (\<lambda>e. etype e = ''sequence'') (edges h) =
              filter (\<lambda>e. etype e = ''sequence'') (edges g')" for m p a q
  proof -
    let ?s = "s\<lparr>playbackMode := m, pendingPlaybackMode := p, activeStepArray := a, seqPosition := q\<rparr>"
    have "cy ?s = Some g" using assms(1) by simp
    from onCellClick_result [OF this, of nt st] show ?thesis
      unfolding e by (simp add: L_def) blast
  qed
  have 3: "map distSteps (filter (\<lambda>e. etype e = ''sequence'') (edges g')) = [Some 8, Some 8]"
    if m: "map fst L = [0, 8]"
  proof -
    from m have l: "length L = 2" by (metis length_map length_Cons list.size(3) numeral_2_eq_2)
    from m have f: "fst (L ! 0) = 0" "fst (L ! 1) = 8"
      by (metis nth_map l nth_Cons_0 zero_less_numeral, metis nth_map l nth_Cons_0 nth_Cons_Suc One_nat_def one_less_numeral_iff semiring_norm(76))
    have u: "[0..<2] = [0, Suc 0]" by (simp add: upt_rec)
    show ?thesis
      using 1 l f by (simp add: u stepDistance_def)
  qed
  show ?thesis
    by (intro exI [of _ s'] exI [of _ g'] conjI allI impI r 1 2 3)
qed


lemma startup_fields:
  "grid (startup w h) = emptyGrid" "cy (startup w h) \<noteq> None" "\<not> isPlaying (startup w h)"
  "seqPosition (startup w h) = 0" "activeStepArray (startup w h) = getStepArray ''forward''"
  "playbackMode (startup w h) = ''forward''" "pendingPlaybackMode (startup w h) = None"
  by (simp_all add: startup_def initGraph_def initSynth_def buildLoop_def initialState_def Let_def)

lemma oneNoteState_fields:
  "cy oneNoteState \<noteq> None" "grid oneNoteState = toggleCell ''C4'' 0 emptyGrid"
proof -
  from startup_fields(2) [of 400 380] obtain g where "cy (startup 400 380) = Some g" by auto
  from onCellClick_result [OF this, of "''C4''" 0]
  show "cy oneNoteState \<noteq> None" "grid oneNoteState = toggleCell ''C4'' 0 emptyGrid"
    by (auto simp: oneNoteState_def startup_fields)
qed

lemma two_note_cells:
  "cell (toggleCell ''C4'' 8 (toggleCell ''C4'' 0 emptyGrid)) n s \<longleftrightarrow> n = ''C4'' \<and> (s = 0 \<or> s = 8)"
  by (auto simp: toggleCell_def emptyGrid_def cell_def STEPS_def nth_list_update
      nth_Cons' split: if_splits)

lemma two_note_groups:
  "buildChordGroups (toggleCell ''C4'' 8 (toggleCell ''C4'' 0 emptyGrid)) =
     [(0, chordAt (toggleCell ''C4'' 8 (toggleCell ''C4'' 0 emptyGrid)) 0),
      (8, chordAt (toggleCell ''C4'' 8 (toggleCell ''C4'' 0 emptyGrid)) 8)]"
proof -
  have "activePitches (toggleCell ''C4'' 8 (toggleCell ''C4'' 0 emptyGrid)) s \<noteq> [] \<longleftrightarrow> s = 0 \<or> s = 8"
    for s
    by (auto simp: activePitches_def two_note_cells filter_empty_conv NOTES_def)
  then show ?thesis
    by (simp add: buildChordGroups_eq comp_def STEPS_def upt_16)
qed

theorem sequence_edges_forward_distance_witness:
  "\<exists>s' g'. onCellClick ''C4'' 8 oneNoteState = Some s' \<and> cy s' = Some g'
     \<and> map fst (stepSequence s') = [0, 8]
     \<and> map distSteps (filter (\<lambda>e. etype e = ''sequence'') (edges g')) = [Some 8, Some 8]
     \<and> map source (filter (\<lambda>e. etype e = ''sequence'') (edges g')) = [''C4@0'', ''C4@8'']
     \<and> map target (filter (\<lambda>e. etype e = ''sequence'') (edges g')) = [''C4@8'', ''C4@0'']"
proof -
  let ?G = "toggleCell ''C4'' 8 (toggleCell ''C4'' 0 emptyGrid)"
  from oneNoteState_fields(1) obtain g where c: "cy oneNoteState = Some g" by auto
  have u: "[0..<2] = [0, Suc 0]" by (simp add: upt_rec)
  have p: "activePitches ?G 0 = [''C4'']" "activePitches ?G 8 = [''C4'']"
    by (simp_all add: activePitches_def two_note_cells NOTES_def)
  have a: "anchorId (chordAt ?G 0) = ''C4@0''" "anchorId (chordAt ?G 8) = ''C4@8''"
    by (simp_all add: chordAt_fields p eventId_def string_of_nat.simps digit_char_def)
  from sequence_edges_forward_distance [OF c, of "''C4''" 8]
  show ?thesis
    unfolding oneNoteState_fields(2) two_note_groups
    by (auto simp: u a stepDistance_def)
qed


subsection \<open>The circle of anchors\<close>

lemma sqrt2_le: "sqrt 2 \<le> 3 / 2"
  by (rule real_le_lsqrt) (simp_all add: power2_eq_square)

lemma cos_pi_8: "cos (pi / 8) \<le> 497 / 529"
proof -
  have "cos (pi / 4) = 2 * (cos (pi / 8))\<^sup>2 - 1"
    using cos_double_cos [of "pi / 8"] by simp
  then have "(cos (pi / 8))\<^sup>2 = (1 + sqrt 2 / 2) / 2"
    by (simp add: cos_45 field_simps)
  also have "\<dots> \<le> (1 + (3 / 2) / 2) / 2" using sqrt2_le by simp
  also have "\<dots> \<le> (497 / 529)\<^sup>2" by (simp add: power2_eq_square)
  finally show ?thesis by (rule power2_le_imp_le) simp
qed

lemma sin_pi_16: "4 / 23 \<le> sin (pi / 16)"
proof -
  have "cos (pi / 8) = 1 - 2 * (sin (pi / 16))\<^sup>2"
    using cos_double_sin [of "pi / 16"] by simp
  then have "(sin (pi / 16))\<^sup>2 = (1 - cos (pi / 8)) / 2" by simp
  also have "\<dots> \<ge> (1 - 497 / 529) / 2" using cos_pi_8 by simp
  finally have "(4 / 23)\<^sup>2 \<le> (sin (pi / 16))\<^sup>2" by (simp add: power2_eq_square)
  moreover have "0 \<le> sin (pi / 16)" by (intro sin_ge_zero) (simp_all add: field_simps)
  ultimately show ?thesis by (rule power2_le_imp_le)
qed

lemma sin_between:
  assumes "pi / 16 \<le> x" "x \<le> 15 * pi / 16"
  shows "sin (pi / 16) \<le> sin x"
proof (cases "x \<le> pi / 2")
  case True
  have "sin (pi / 16) \<le> sin x \<longleftrightarrow> pi / 16 \<le> x"
    by (rule sin_mono_le_eq) (use assms True in \<open>simp_all add: field_simps\<close>)
  with assms show ?thesis by simp
next
  case False
  have "sin (pi / 16) \<le> sin (pi - x) \<longleftrightarrow> pi / 16 \<le> pi - x"
    by (rule sin_mono_le_eq) (use assms False in \<open>simp_all add: field_simps\<close>)
  with assms show ?thesis by (simp add: field_simps)
qed

lemma sin_steps:
  assumes "a < 16" "b < 16" "a \<noteq> b"
  shows "4 / 23 \<le> \<bar>sin ((real a - real b) * pi / 16)\<bar>"
proof -
  have pos: "4 / 23 \<le> sin (real k * pi / 16)" if "1 \<le> k" "k \<le> 15" for k :: nat
  proof -
    have "pi / 16 \<le> real k * pi / 16" using that by (simp add: field_simps)
    moreover have "real k * pi / 16 \<le> 15 * pi / 16" using that by (simp add: field_simps)
    ultimately show ?thesis using sin_between sin_pi_16 by fastforce
  qed
  show ?thesis
  proof (cases "b < a")
    case True
    then have e: "(real a - real b) * pi / 16 = real (a - b) * pi / 16"
      by (simp only: of_nat_diff [OF less_imp_le])
    have "4 / 23 \<le> sin (real (a - b) * pi / 16)"
      by (rule pos) (use True assms in arith)+
    then have "4 / 23 \<le> sin ((real a - real b) * pi / 16)" by (simp only: e)
    then show ?thesis by (rule order_trans [OF _ abs_ge_self])
  next
    case False
    with assms have lt: "a < b" by arith
    then have e: "(real a - real b) * pi / 16 = - (real (b - a) * pi / 16)"
      by (simp add: of_nat_diff [OF less_imp_le] field_simps)
    have "4 / 23 \<le> sin (real (b - a) * pi / 16)"
      by (rule pos) (use lt assms in arith)+
    also have "\<dots> \<le> \<bar>sin (- (real (b - a) * pi / 16))\<bar>"
      unfolding sin_minus abs_minus_cancel by (rule abs_ge_self)
    finally show ?thesis by (simp only: e)
  qed
qed

lemma layoutRadius_ge:
  assumes "2 \<le> n"
  shows "23 \<le> layoutRadius g n"
proof -
  have "0 < pi / real n" using assms by simp
  moreover have "pi / real n \<le> pi / 2" using assms by (simp add: field_simps)
  ultimately have "0 < sin (pi / real n)"
    by (intro sin_gt_zero) (use pi_gt_zero in linarith)+
  moreover have "sin (pi / real n) \<le> 1" by simp
  ultimately have "23 \<le> (38 + 8) / (2 * sin (pi / real n))"
    by (simp add: field_simps)
  then show ?thesis using assms by (simp add: layoutRadius_def Let_def)
qed



lemma chord_algebra:
  fixes r :: real
  shows "(x0 + r * c1 - (x0 + r * c2))\<^sup>2 + (y0 + r * s1 - (y0 + r * s2))\<^sup>2 =
      r\<^sup>2 * (((c1\<^sup>2 + s1\<^sup>2) + (c2\<^sup>2 + s2\<^sup>2)) - 2 * (c1 * c2 + s1 * s2))"
  by (simp add: power2_eq_square algebra_simps)

lemma circle_chord:
  "distance (x0 + r * cos \<alpha>, y0 + r * sin \<alpha>) (x0 + r * cos \<beta>, y0 + r * sin \<beta>) =
     2 * \<bar>r\<bar> * \<bar>sin ((\<alpha> - \<beta>) / 2)\<bar>"
proof -
  have "(x0 + r * cos \<alpha> - (x0 + r * cos \<beta>))\<^sup>2 + (y0 + r * sin \<alpha> - (y0 + r * sin \<beta>))\<^sup>2 =
      r\<^sup>2 * ((((cos \<alpha>)\<^sup>2 + (sin \<alpha>)\<^sup>2) + ((cos \<beta>)\<^sup>2 + (sin \<beta>)\<^sup>2))
        - 2 * (cos \<alpha> * cos \<beta> + sin \<alpha> * sin \<beta>))"
    by (rule chord_algebra)
  also have "(((cos \<alpha>)\<^sup>2 + (sin \<alpha>)\<^sup>2) + ((cos \<beta>)\<^sup>2 + (sin \<beta>)\<^sup>2))
        - 2 * (cos \<alpha> * cos \<beta> + sin \<alpha> * sin \<beta>) = 2 - 2 * cos (\<alpha> - \<beta>)"
    by (simp add: cos_diff)
  also have "\<dots> = 4 * (sin ((\<alpha> - \<beta>) / 2))\<^sup>2"
  proof -
    have "2 * ((\<alpha> - \<beta>) / 2) = \<alpha> - \<beta>" by simp
    with cos_double_sin [of "(\<alpha> - \<beta>) / 2"]
    have "cos (\<alpha> - \<beta>) = 1 - 2 * (sin ((\<alpha> - \<beta>) / 2))\<^sup>2" by (simp only:)
    then show ?thesis by simp
  qed
  also have "r\<^sup>2 * (4 * (sin ((\<alpha> - \<beta>) / 2))\<^sup>2) = (2 * r * sin ((\<alpha> - \<beta>) / 2))\<^sup>2"
    by (simp add: power_mult_distrib)
  finally have sq: "(x0 + r * cos \<alpha> - (x0 + r * cos \<beta>))\<^sup>2 + (y0 + r * sin \<alpha> - (y0 + r * sin \<beta>))\<^sup>2 =
      (2 * r * sin ((\<alpha> - \<beta>) / 2))\<^sup>2" .
  show ?thesis
    unfolding distance_def fst_conv snd_conv sq by (simp add: abs_mult)
qed

text \<open>
  What the radius does give for every number \<open>n \<ge> 2\<close> of chords and every container:
  the anchors of two different steps are at least 8 apart, from centre to centre.
\<close>

lemma anchor_gap:
  assumes "2 \<le> n" "a < 16" "b < 16" "a \<noteq> b"
  shows "8 \<le> distance (anchorPosition g n a) (anchorPosition g n b)"
proof -
  let ?r = "layoutRadius g n"
  have r: "23 \<le> ?r" by (rule layoutRadius_ge [OF assms(1)])
  have h: "(stepAngle a - stepAngle b) / 2 = (real a - real b) * pi / 16"
    by (simp add: stepAngle_def STEPS_def field_simps)
  have "distance (anchorPosition g n a) (anchorPosition g n b) =
      2 * \<bar>?r\<bar> * \<bar>sin ((stepAngle a - stepAngle b) / 2)\<bar>"
    unfolding anchorPosition_def Let_def by (rule circle_chord)
  moreover have "2 * 23 * (4 / 23) \<le> 2 * \<bar>?r\<bar> * \<bar>sin ((real a - real b) * pi / 16)\<bar>"
    using r sin_steps [OF assms(2-4)] by (intro mult_mono) simp_all
  ultimately show ?thesis unfolding h by simp
qed


subsection \<open>Chords on neighbouring steps\<close>

lemma sqrt2_ge: "7 / 5 \<le> sqrt 2"
  by (rule real_le_rsqrt) (simp add: power2_eq_square)

lemma cos_pi_8_ge: "23 / 25 \<le> cos (pi / 8)"
proof -
  have "cos (pi / 4) = 2 * (cos (pi / 8))\<^sup>2 - 1"
    using cos_double_cos [of "pi / 8"] by simp
  then have "(cos (pi / 8))\<^sup>2 = (1 + sqrt 2 / 2) / 2"
    by (simp add: cos_45 field_simps)
  moreover have "(23 / 25)\<^sup>2 \<le> (1 + (7 / 5) / 2) / (2::real)" by (simp add: power2_eq_square)
  moreover have "(1 + (7 / 5) / 2) / 2 \<le> (1 + sqrt 2 / 2) / 2" using sqrt2_ge by simp
  ultimately have "(23 / 25)\<^sup>2 \<le> (cos (pi / 8))\<^sup>2" by simp
  moreover have "0 \<le> cos (pi / 8)" by (intro cos_ge_zero) (simp_all add: field_simps)
  ultimately show ?thesis by (rule power2_le_imp_le)
qed

lemma sin_pi_16_le: "sin (pi / 16) \<le> 1 / 5"
proof -
  have "cos (pi / 8) = 1 - 2 * (sin (pi / 16))\<^sup>2"
    using cos_double_sin [of "pi / 16"] by simp
  then have "(sin (pi / 16))\<^sup>2 = (1 - cos (pi / 8)) / 2" by simp
  also have "\<dots> \<le> (1 - 23 / 25) / 2" using cos_pi_8_ge by simp
  finally have "(sin (pi / 16))\<^sup>2 \<le> (1 / 5)\<^sup>2" by (simp add: power2_eq_square)
  then show ?thesis by (rule power2_le_imp_le) simp
qed

lemma neighbour_cells:
  "cell (toggleCell ''C4'' 1 (toggleCell ''C4'' 0 emptyGrid)) n s \<longleftrightarrow> n = ''C4'' \<and> (s = 0 \<or> s = 1)"
  by (auto simp: toggleCell_def emptyGrid_def cell_def STEPS_def nth_list_update
      nth_Cons' split: if_splits)

lemma neighbour_groups:
  "buildChordGroups (toggleCell ''C4'' 1 (toggleCell ''C4'' 0 emptyGrid)) =
     [(0, chordAt (toggleCell ''C4'' 1 (toggleCell ''C4'' 0 emptyGrid)) 0),
      (1, chordAt (toggleCell ''C4'' 1 (toggleCell ''C4'' 0 emptyGrid)) 1)]"
proof -
  have "activePitches (toggleCell ''C4'' 1 (toggleCell ''C4'' 0 emptyGrid)) s \<noteq> [] \<longleftrightarrow> s = 0 \<or> s = 1"
    for s
    by (auto simp: activePitches_def neighbour_cells filter_empty_conv NOTES_def
        simp del: One_nat_def)
  then show ?thesis
    by (simp add: buildChordGroups_eq comp_def STEPS_def upt_16 del: One_nat_def)
qed

lemma layoutRadius_two:
  "layoutRadius g 2 = max (min (containerW g) (containerH g) * 0.28) 23"
  by (simp add: layoutRadius_def Let_def)

lemma neighbour_distance:
  "distance (anchorPosition g 2 0) (anchorPosition g 2 1) = 2 * layoutRadius g 2 * sin (pi / 16)"
proof -
  have h: "(stepAngle 0 - stepAngle 1) / 2 = - (pi / 16)"
    by (simp add: stepAngle_def STEPS_def)
  have r: "0 \<le> layoutRadius g 2" by (simp add: layoutRadius_two)
  have s: "0 \<le> sin (pi / 16)" by (intro sin_ge_zero) (simp_all add: field_simps)
  have "distance (anchorPosition g 2 0) (anchorPosition g 2 1) =
      2 * \<bar>layoutRadius g 2\<bar> * \<bar>sin ((stepAngle 0 - stepAngle 1) / 2)\<bar>"
    unfolding anchorPosition_def Let_def by (rule circle_chord)
  then show ?thesis unfolding h using r s by simp
qed

lemma neighbour_layout:
  assumes w: "0 < w" and h: "0 < h"
  shows "\<exists>s g p q. run [CellClick ''C4'' 0, CellClick ''C4'' 1] (startup w h) = Some s
     \<and> cy s = Some g \<and> map fst (stepSequence s) = [0, 1]
     \<and> anchorPoint g (snd (stepSequence s ! 0)) = Some p
     \<and> anchorPoint g (snd (stepSequence s ! 1)) = Some q
     \<and> distance p q = 2 * max (min (real w) (real h) * 0.28) 23 * sin (pi / 16)"
proof -
  let ?G1 = "toggleCell ''C4'' 0 emptyGrid"
  let ?G2 = "toggleCell ''C4'' 1 ?G1"
  let ?L = "buildChordGroups ?G2"
  obtain g0 where g0: "cy (startup w h) = Some g0" "clientWidth g0 = w" "clientHeight g0 = h"
    by (simp add: startup_def initGraph_def)
  let ?s0 = "(startup w h)\<lparr>grid := ?G1\<rparr>"
  have "cy ?s0 = Some g0" using g0(1) by simp
  from updateGraph_result [OF this] obtain g1 where
    u1: "updateGraph ?s0 = Some (?s0\<lparr>chordGroups := buildChordGroups (grid ?s0),
           stepSequence := buildChordGroups (grid ?s0), prevPlayingNodes := [], cy := Some g1\<rparr>)"
    and d1: "clientWidth g1 = clientWidth g0" "clientHeight g1 = clientHeight g0"
    by blast
  let ?s1 = "?s0\<lparr>chordGroups := buildChordGroups (grid ?s0),
           stepSequence := buildChordGroups (grid ?s0), prevPlayingNodes := [], cy := Some g1\<rparr>"
  let ?s1' = "?s1\<lparr>grid := ?G2\<rparr>"
  have c1: "cy ?s1' = Some g1" by simp
  have gr: "grid ?s1' = ?G2" by simp
  from updateGraph_result [OF c1] obtain g2 where
    u2: "updateGraph ?s1' = Some (?s1'\<lparr>chordGroups := buildChordGroups (grid ?s1'),
           stepSequence := buildChordGroups (grid ?s1'), prevPlayingNodes := [], cy := Some g2\<rparr>)"
    and pos: "\<forall>(step, grp) \<in> set (buildChordGroups (grid ?s1')).
        map_option position (nodes g2 (anchorId grp)) =
          Some (anchorPosition g1 (length (buildChordGroups (grid ?s1'))) step)"
    by blast
  let ?s2 = "?s1'\<lparr>chordGroups := ?L, stepSequence := ?L, prevPlayingNodes := [], cy := Some g2\<rparr>"
  have r: "run [CellClick ''C4'' 0, CellClick ''C4'' 1] (startup w h) = Some ?s2"
    using u1 u2 by (simp add: onCellClick_def startup_fields)
  have m: "(0, chordAt ?G2 0) \<in> set ?L" "(1, chordAt ?G2 1) \<in> set ?L"
    unfolding neighbour_groups by simp_all
  have len: "length ?L = 2" unfolding neighbour_groups by simp
  from pos m(1) have "map_option position (nodes g2 (anchorId (chordAt ?G2 0))) =
      Some (anchorPosition g1 (length ?L) 0)"
    unfolding gr by blast
  then have p0: "anchorPoint g2 (chordAt ?G2 0) = Some (anchorPosition g1 2 0)"
    by (simp only: anchorPoint_def len)
  from pos m(2) have "map_option position (nodes g2 (anchorId (chordAt ?G2 1))) =
      Some (anchorPosition g1 (length ?L) 1)"
    unfolding gr by blast
  then have p1: "anchorPoint g2 (chordAt ?G2 1) = Some (anchorPosition g1 2 1)"
    by (simp only: anchorPoint_def len)
  have "layoutRadius g1 2 = max (min (real w) (real h) * 0.28) 23"
    using w h by (simp add: layoutRadius_two containerW_def containerH_def d1 g0)
  then have "distance (anchorPosition g1 2 0) (anchorPosition g1 2 1) =
      2 * max (min (real w) (real h) * 0.28) 23 * sin (pi / 16)"
    by (simp only: neighbour_distance)
  then have dist: "distance (anchorPosition g1 2 0) (anchorPosition g1 2 1) =
      2 * max (min (real w) (real h) * 0.28) 23 * sin (pi / 16)" .
  have sq: "stepSequence ?s2 = ?L" by simp
  have f: "map fst ?L = [0, 1]" unfolding neighbour_groups by simp
  have n: "snd (?L ! 0) = chordAt ?G2 0" "snd (?L ! 1) = chordAt ?G2 1"
    unfolding neighbour_groups by simp_all
  show ?thesis
  proof (intro exI conjI)
    show "run [CellClick ''C4'' 0, CellClick ''C4'' 1] (startup w h) = Some ?s2" by (rule r)
    show "cy ?s2 = Some g2" by simp
    show "map fst (stepSequence ?s2) = [0, 1]" unfolding sq by (rule f)
    show "anchorPoint g2 (snd (stepSequence ?s2 ! 0)) = Some (anchorPosition g1 2 0)"
      unfolding sq n by (rule p0)
    show "anchorPoint g2 (snd (stepSequence ?s2 ! 1)) = Some (anchorPosition g1 2 1)"
      unfolding sq n by (rule p1)
    show "distance (anchorPosition g1 2 0) (anchorPosition g1 2 1) =
      2 * max (min (real w) (real h) * 0.28) 23 * sin (pi / 16)" by (rule dist)
  qed
qed

text \<open>
  C7. The radius is chosen for anchors spaced evenly by their number, but the anchors
  are placed by step. After clicks on C4 on the neighbouring steps 0 and 1 the two
  anchors are closer than 38 + 8 in a container of 400 by 380, and closer than the
  diameter 38 of a node in a container of 300 by 300.
\<close>

theorem neighbouring_anchors_too_close:
  "(\<exists>s g p q. run [CellClick ''C4'' 0, CellClick ''C4'' 1] (startup 400 380) = Some s
      \<and> cy s = Some g \<and> map fst (stepSequence s) = [0, 1]
      \<and> anchorPoint g (snd (stepSequence s ! 0)) = Some p
      \<and> anchorPoint g (snd (stepSequence s ! 1)) = Some q
      \<and> distance p q < 38 + 8)
   \<and> (\<exists>s g p q. run [CellClick ''C4'' 0, CellClick ''C4'' 1] (startup 300 300) = Some s
      \<and> cy s = Some g \<and> map fst (stepSequence s) = [0, 1]
      \<and> anchorPoint g (snd (stepSequence s ! 0)) = Some p
      \<and> anchorPoint g (snd (stepSequence s ! 1)) = Some q
      \<and> distance p q < 38)"
proof
  from neighbour_layout [of 400 380] obtain s g p q where
    a: "run [CellClick ''C4'' 0, CellClick ''C4'' 1] (startup 400 380) = Some s"
      "cy s = Some g" "map fst (stepSequence s) = [0, 1]"
      "anchorPoint g (snd (stepSequence s ! 0)) = Some p"
      "anchorPoint g (snd (stepSequence s ! 1)) = Some q"
    and d: "distance p q = 2 * max (min (real 400) (real 380) * 0.28) 23 * sin (pi / 16)"
    by auto
  have "distance p q \<le> 2 * (380 * 0.28) * (1 / 5)"
    unfolding d using sin_pi_16_le by simp
  then have dd: "distance p q < 38 + 8" by simp
  show "\<exists>s g p q. run [CellClick ''C4'' 0, CellClick ''C4'' 1] (startup 400 380) = Some s
      \<and> cy s = Some g \<and> map fst (stepSequence s) = [0, 1]
      \<and> anchorPoint g (snd (stepSequence s ! 0)) = Some p
      \<and> anchorPoint g (snd (stepSequence s ! 1)) = Some q
      \<and> distance p q < 38 + 8" by (intro exI conjI) (rule a dd)+
next
  from neighbour_layout [of 300 300] obtain s g p q where
    a: "run [CellClick ''C4'' 0, CellClick ''C4'' 1] (startup 300 300) = Some s"
      "cy s = Some g" "map fst (stepSequence s) = [0, 1]"
      "anchorPoint g (snd (stepSequence s ! 0)) = Some p"
      "anchorPoint g (snd (stepSequence s ! 1)) = Some q"
    and d: "distance p q = 2 * max (min (real 300) (real 300) * 0.28) 23 * sin (pi / 16)"
    by auto
  have "distance p q \<le> 2 * (300 * 0.28) * (1 / 5)"
    unfolding d using sin_pi_16_le by simp
  then have dd: "distance p q < 38" by simp
  show "\<exists>s g p q. run [CellClick ''C4'' 0, CellClick ''C4'' 1] (startup 300 300) = Some s
      \<and> cy s = Some g \<and> map fst (stepSequence s) = [0, 1]
      \<and> anchorPoint g (snd (stepSequence s ! 0)) = Some p
      \<and> anchorPoint g (snd (stepSequence s ! 1)) = Some q
      \<and> distance p q < 38" by (intro exI conjI) (rule a dd)+
qed


subsection \<open>Highlights\<close>

lemma frame_removeClass [simp]: "frame (removeClass c i g) = frame g"
  by (simp add: removeClass_def)

lemma frame_addClass [simp]: "frame (addClass c i g) = frame g"
  by (simp add: addClass_def)

lemma pose_updNode:
  assumes "\<And>nd. pose (f nd) = pose nd"
  shows "map_option pose (nodes (updNode i f g) j) = map_option pose (nodes g j)"
  by (cases "nodes g j") (auto simp: assms)

lemma pose_removeClass [simp]:
  "map_option pose (nodes (removeClass c i g) j) = map_option pose (nodes g j)"
  unfolding removeClass_def by (rule pose_updNode) (simp add: pose_def)

lemma pose_addClass [simp]:
  "map_option pose (nodes (addClass c i g) j) = map_option pose (nodes g j)"
  unfolding addClass_def by (rule pose_updNode) (simp add: pose_def)

lemma fold_removeClass:
  "frame (fold (removeClass c) ids g) = frame g
   \<and> (\<forall>j. map_option pose (nodes (fold (removeClass c) ids g) j) = map_option pose (nodes g j))"
  by (induction ids arbitrary: g) simp_all

lemma highlightNode_pair:
  "highlightNode i (g, acc) =
     (if nodes g i = None then (g, acc) else (addClass ''playing'' i g, acc @ [i]))"
  by (simp add: highlightNode_def)

lemma highlight_fold:
  "frame (fst (fold highlightNode ids (g, acc))) = frame g
   \<and> (\<forall>j. map_option pose (nodes (fst (fold highlightNode ids (g, acc))) j) =
          map_option pose (nodes g j))"
proof (induction ids arbitrary: g acc)
  case Nil
  show ?case by simp
next
  case (Cons i ids)
  show ?case
    by (simp add: Cons highlightNode_pair)
qed

lemma highlight_result:
  "frame (fst (highlight ids g)) = frame g"
  "map_option pose (nodes (fst (highlight ids g)) j) = map_option pose (nodes g j)"
  using highlight_fold [of ids g "[]"] by (simp_all add: highlight_def)

lemma present_pose: "nodes g' j = None \<longleftrightarrow> nodes g j = None"
  if "map_option pose (nodes g' j) = map_option pose (nodes g j)"
  using that by (cases "nodes g j"; cases "nodes g' j") simp_all


subsection \<open>The search for the next chord\<close>

lemma indexOf_nth: "distinct xs \<Longrightarrow> j < length xs \<Longrightarrow> indexOf xs (xs ! j) = int j"
proof (induction xs arbitrary: j)
  case Nil
  then show ?case by simp
next
  case (Cons y ys)
  show ?case
  proof (cases j)
    case 0
    then show ?thesis by simp
  next
    case (Suc k)
    with Cons.prems have k: "k < length ys" and "y \<noteq> ys ! k" by auto
    with Cons.IH [of k] Cons.prems show ?thesis by (simp add: Suc Let_def)
  qed
qed

lemma js_rem_nat: "js_rem (int a) (int n) = int (a mod n)"
  by (cases "a = 0") (simp_all add: js_rem_def zmod_int)

lemma elemAt_nat: "m < length xs \<Longrightarrow> elemAt xs (int m) = Some (xs ! m)"
  by (simp add: elemAt_def)

lemma findTarget_step:
  assumes "j < length arr" "i < length arr"
  shows "findTarget cgs arr (int j) i =
     (case map_of cgs (arr ! ((j + i) mod length arr)) of
        None \<Rightarrow> findTarget cgs arr (int j) (i + 1)
      | Some grp \<Rightarrow> Some (grp, i + 1))"
proof -
  have "js_rem (int j + int i) (int (length arr)) = int ((j + i) mod length arr)"
    using js_rem_nat [of "j + i" "length arr"] by simp
  moreover have "(j + i) mod length arr < length arr"
    by (rule mod_less_divisor) (rule le_less_trans [OF le0 assms(1)])
  ultimately show ?thesis
    using assms by (subst findTarget.simps) (simp add: elemAt_nat)
qed

lemma findTarget_end: "length arr \<le> i \<Longrightarrow> findTarget cgs arr p i = None"
  by (subst findTarget.simps) simp

lemma findTarget_Some:
  assumes "j < length arr"
  shows "findTarget cgs arr (int j) i = Some (grp, d) \<Longrightarrow>
     i < d \<and> d \<le> length arr
   \<and> map_of cgs (arr ! ((j + (d - 1)) mod length arr)) = Some grp
   \<and> (\<forall>k. i \<le> k \<and> k < d - 1 \<longrightarrow> map_of cgs (arr ! ((j + k) mod length arr)) = None)"
proof (induction "length arr - i" arbitrary: i)
  case 0
  then show ?case by (simp add: findTarget_end)
next
  case (Suc m)
  then have i: "i < length arr" by simp
  show ?case
  proof (cases "map_of cgs (arr ! ((j + i) mod length arr))")
    case None
    with Suc.prems have r: "findTarget cgs arr (int j) (i + 1) = Some (grp, d)"
      by (simp add: findTarget_step [OF assms i])
    have "m = length arr - (i + 1)" using Suc.hyps(2) by simp
    from Suc.hyps(1) [OF this r]
    have h: "i + 1 < d" "d \<le> length arr"
      "map_of cgs (arr ! ((j + (d - 1)) mod length arr)) = Some grp"
      "\<forall>k. i + 1 \<le> k \<and> k < d - 1 \<longrightarrow> map_of cgs (arr ! ((j + k) mod length arr)) = None"
      by blast+
    have n: "map_of cgs (arr ! ((j + k) mod length arr)) = None" if "i \<le> k \<and> k < d - 1" for k
      using that h(4) None by (cases "k = i") simp_all
    show ?thesis
    proof (intro conjI allI impI)
      show "i < d" using h(1) by arith
      show "d \<le> length arr" by (rule h(2))
      show "map_of cgs (arr ! ((j + (d - 1)) mod length arr)) = Some grp" by (rule h(3))
      show "map_of cgs (arr ! ((j + k) mod length arr)) = None" if "i \<le> k \<and> k < d - 1" for k
        using that by (rule n)
    qed
  next
    case (Some a)
    with Suc.prems have e: "grp = a" "d = i + 1"
      by (simp_all add: findTarget_step [OF assms i])
    show ?thesis
    proof (intro conjI allI impI)
      show "i < d" using e by simp
      show "d \<le> length arr" using e i by simp
      show "map_of cgs (arr ! ((j + (d - 1)) mod length arr)) = Some grp" using e Some by simp
      show "map_of cgs (arr ! ((j + k) mod length arr)) = None" if "i \<le> k \<and> k < d - 1" for k
      proof -
        from that e have "i \<le> k" "k < i" by simp_all
        then show ?thesis by arith
      qed
    qed
  qed
qed

lemma findTarget_None:
  assumes "j < length arr"
  shows "findTarget cgs arr (int j) i = None \<Longrightarrow>
     \<forall>k. i \<le> k \<and> k < length arr \<longrightarrow> map_of cgs (arr ! ((j + k) mod length arr)) = None"
proof (induction "length arr - i" arbitrary: i)
  case 0
  then show ?case by auto
next
  case (Suc m)
  then have i: "i < length arr" by simp
  from Suc.prems have n: "map_of cgs (arr ! ((j + i) mod length arr)) = None"
    and r: "findTarget cgs arr (int j) (i + 1) = None"
    by (simp_all add: findTarget_step [OF assms i] split: option.splits)
  have "m = length arr - (i + 1)" using Suc.hyps(2) by simp
  from Suc.hyps(1) [OF this r]
  have "\<forall>k. i + 1 \<le> k \<and> k < length arr \<longrightarrow> map_of cgs (arr ! ((j + k) mod length arr)) = None" .
  with n show ?case by (metis Suc_eq_plus1 Suc_leI le_neq_implies_less)
qed

lemma findTarget_finds:
  assumes j: "j < length arr" and st: "step \<in> set arr" and g: "map_of cgs step \<noteq> None"
  shows "\<exists>grp d. findTarget cgs arr (int j) 0 = Some (grp, d)"
proof (rule ccontr)
  assume "\<nexists>grp d. findTarget cgs arr (int j) 0 = Some (grp, d)"
  then have "findTarget cgs arr (int j) 0 = None" by (cases "findTarget cgs arr (int j) 0") auto
  from findTarget_None [OF j this]
  have none: "\<And>k. k < length arr \<Longrightarrow> map_of cgs (arr ! ((j + k) mod length arr)) = None" by simp
  from st obtain m where m: "m < length arr" "arr ! m = step" by (auto simp: in_set_conv_nth)
  let ?k = "(m + length arr - j) mod length arr"
  have "?k < length arr"
    by (rule mod_less_divisor) (rule le_less_trans [OF le0 j])
  moreover have "(j + ?k) mod length arr = m"
  proof -
    have "(j + ?k) mod length arr = (j + (m + length arr - j)) mod length arr"
      by (simp add: mod_add_right_eq)
    also have "j + (m + length arr - j) = m + length arr" using j by simp
    finally show ?thesis using m by simp
  qed
  ultimately have "map_of cgs (arr ! m) = None" using none [of ?k] by simp
  with g m show False by simp
qed


subsection \<open>What each operation leaves alone\<close>

lemma updateGraphPlayhead_keeps:
  "grid (updateGraphPlayhead a b s) = grid s"
  "chordGroups (updateGraphPlayhead a b s) = chordGroups s"
  "stepSequence (updateGraphPlayhead a b s) = stepSequence s"
  "activeStepArray (updateGraphPlayhead a b s) = activeStepArray s"
  "seqPosition (updateGraphPlayhead a b s) = seqPosition s"
  by (simp_all add: updateGraphPlayhead_def Let_def split: option.splits prod.splits)

lemma frame_ball_chain:
  "frame (animate i p d (setOpacity i v (setPosition i q (stopNode i g)))) = frame g"
  by (simp add: animate_def setOpacity_def setPosition_def stopNode_def)

lemma updateGraphPlayhead_frame:
  assumes "cy s = Some g"
  shows "\<exists>g'. cy (updateGraphPlayhead a b s) = Some g' \<and> frame g' = frame g"
proof -
  let ?g1 = "fold (removeClass ''playing'') (prevPlayingNodes s) g"
  have f1: "frame ?g1 = frame g" using fold_removeClass by blast
  show ?thesis
  proof (cases "map_of (chordGroups s) a")
    case None
    then show ?thesis using assms f1 by (simp add: updateGraphPlayhead_def Let_def)
  next
    case (Some src)
    obtain g2 prev where h: "highlight (nodeIds src) ?g1 = (g2, prev)"
      by (cases "highlight (nodeIds src) ?g1")
    have f2: "frame g2 = frame g" using highlight_result(1) [of "nodeIds src" ?g1] h f1 by simp
    show ?thesis
      using assms Some h f2
      by (auto simp: updateGraphPlayhead_def Let_def frame_ball_chain
          split: option.splits prod.splits)
  qed
qed

lemma stop_keeps:
  "grid (stop s) = grid s" "chordGroups (stop s) = chordGroups s"
  "stepSequence (stop s) = stepSequence s"
  by (simp_all add: stop_def Let_def buildLoop_fields split: option.splits)

lemma stop_frame:
  assumes "cy s = Some g"
  shows "\<exists>g'. cy (stop s) = Some g' \<and> frame g' = frame g"
proof (cases "isPlaying s")
  case False
  then show ?thesis using assms by (simp add: stop_def)
next
  case True
  have "frame (hideBall (fold (removeClass ''playing'') ids g)) = frame g" for ids
    using fold_removeClass [of "''playing''" ids g] by (simp add: frame_hideBall)
  then show ?thesis
    using True assms by (simp add: stop_def Let_def buildLoop_fields split: option.splits)
qed

lemma stop_clockReady: "clockReady s \<Longrightarrow> clockReady (stop s)"
proof (cases "isPlaying s")
  case False
  then show "clockReady s \<Longrightarrow> clockReady (stop s)" by (simp add: stop_def)
next
  case True
  assume "clockReady s"
  then have "activeStepArray s \<noteq> []" by (auto simp: clockReady_def)
  then show "clockReady (stop s)"
    using stop_clock [OF True] getStepArray_nonempty
    by (cases "pendingPlaybackMode s") (simp_all add: clockReady_def)
qed

lemma tick_ready:
  assumes "clockReady s"
  shows "\<exists>s' effs. tick t s = Some (s', effs) \<and> clockReady s' \<and> cy s' = cy s
     \<and> grid s' = grid s \<and> chordGroups s' = chordGroups s \<and> stepSequence s' = stepSequence s"
proof -
  let ?p = "applyPending s"
  have l: "seqPosition s < length (activeStepArray ?p)"
    by (rule clockReady_applyPending [OF assms])
  have k: "seqPosition ?p = seqPosition s" "cy ?p = cy s" "grid ?p = grid s"
    "chordGroups ?p = chordGroups s" "stepSequence ?p = stepSequence s"
    by (simp_all add: applyPending_def split: option.splits)
  have "(seqPosition s + 1) mod length (activeStepArray ?p) < length (activeStepArray ?p)"
    by (rule mod_less_divisor) (rule le_less_trans [OF le0 l])
  then show ?thesis
    using l by (simp add: tick_def Let_def k clockReady_def)
qed

lemma setPlaybackMode_keeps:
  "grid (setPlaybackMode m s) = grid s" "chordGroups (setPlaybackMode m s) = chordGroups s"
  "stepSequence (setPlaybackMode m s) = stepSequence s" "cy (setPlaybackMode m s) = cy s"
  by (simp_all add: setPlaybackMode_def buildLoop_fields)

lemma setPlaybackMode_clockReady: "clockReady s \<Longrightarrow> clockReady (setPlaybackMode m s)"
  using getStepArray_nonempty
  by (simp add: setPlaybackMode_def clockReady_def buildLoop_fields)


subsection \<open>The marker stays, and the program stays ready\<close>

lemma frame_dom: "frame g' = frame g \<Longrightarrow> dom (nodes g') = dom (nodes g)"
  by (simp add: frame_def)

lemma tick_cy: "tick t s = Some (s', effs) \<Longrightarrow> cy s' = cy s"
  by (auto simp: tick_def Let_def applyPending_def buildLoop_fields split: if_splits option.splits)

lemma updateGraph_ball:
  assumes "cy s = Some g" "nodes g BALL \<noteq> None"
  shows "\<exists>s' g'. updateGraph s = Some s' \<and> cy s' = Some g' \<and> nodes g' BALL \<noteq> None"
proof -
  from updateGraph_result [OF assms(1)] obtain g' where
    u: "updateGraph s = Some (s\<lparr>chordGroups := buildChordGroups (grid s),
          stepSequence := buildChordGroups (grid s), prevPlayingNodes := [], cy := Some g'\<rparr>)"
    and b: "nodes g' BALL = map_option (\<lambda>nd. nd\<lparr>animation := None, opacity := Some 0\<rparr>) (nodes g BALL)"
    by blast
  from b assms(2) have "nodes g' BALL \<noteq> None" by simp
  with u show ?thesis by simp
qed

lemma handle_ball:
  assumes h: "handle e s = Some s'" and c: "cy s = Some g" and b: "nodes g BALL \<noteq> None"
  shows "\<exists>g'. cy s' = Some g' \<and> nodes g' BALL \<noteq> None"
proof (cases e)
  case (CellClick nt st)
  have "cy (s\<lparr>grid := toggleCell nt st (grid s)\<rparr>) = Some g" using c by simp
  from updateGraph_ball [OF this b] h CellClick show ?thesis by (auto simp: onCellClick_def)
next
  case ClearAll
  have "cy (s\<lparr>grid := clearGrid (grid s)\<rparr>) = Some g" using c by simp
  from updateGraph_ball [OF this b] h ClearAll show ?thesis by (auto simp: clearAll_def)
next
  case (Play f)
  then show ?thesis using h c b by (auto simp: play_def)
next
  case Stop
  from stop_frame [OF c] obtain g' where "cy (stop s) = Some g'" "frame g' = frame g" by blast
  then have "cy (stop s) = Some g'" "dom (nodes g') = dom (nodes g)" by (simp_all add: frame_def)
  then show ?thesis using h Stop b by (auto simp: domIff)
next
  case (SetPlaybackMode m)
  then show ?thesis using h c b by (auto simp: setPlaybackMode_keeps)
next
  case (SetBPM v)
  then show ?thesis using h c b by (auto simp: setBPM_def split: option.splits)
next
  case (Tick t)
  with h obtain effs where "tick t s = Some (s', effs)" by auto
  from tick_cy [OF this] show ?thesis using c b by simp
next
  case (Visual a n)
  have "cy (s\<lparr>playhead := Some a\<rparr>) = Some g" using c by simp
  from updateGraphPlayhead_frame [OF this, of a n] obtain g' where
    "cy (visual a n s) = Some g'" "frame g' = frame g" by (auto simp: visual_def)
  then have "cy (visual a n s) = Some g'" "dom (nodes g') = dom (nodes g)" by (simp_all add: frame_def)
  then show ?thesis using h Visual b by (auto simp: domIff)
next
  case FitGraph
  with h c obtain g' where p: "positionNodes (stepSequence s) (chordGroups s) g = Some g'"
    and s': "s' = s\<lparr>cy := Some g'\<rparr>"
    by (auto simp: fitGraph_def split: option.splits)
  from frame_positionNodes [OF p] have "dom (nodes g') = dom (nodes g)" by (simp add: frame_def)
  then show ?thesis using s' b by (auto simp: domIff)
next
  case (ContainerResize w hh)
  then show ?thesis using h c b by auto
qed

lemma run_ball:
  "run es s = Some s' \<Longrightarrow> cy s = Some g \<Longrightarrow> nodes g BALL \<noteq> None \<Longrightarrow>
   \<exists>g'. cy s' = Some g' \<and> nodes g' BALL \<noteq> None"
proof (induction es arbitrary: s g)
  case Nil
  then show ?case by simp
next
  case (Cons e es)
  from Cons.prems(1) obtain s1 where h: "handle e s = Some s1" and r: "run es s1 = Some s'"
    by (auto split: option.splits)
  from handle_ball [OF h Cons.prems(2,3)] obtain g1 where "cy s1 = Some g1" "nodes g1 BALL \<noteq> None"
    by blast
  from Cons.IH [OF r this] show ?case .
qed

lemma startup_ball: "\<exists>g. cy (startup w h) = Some g \<and> nodes g BALL \<noteq> None"
  by (simp add: startup_def initGraph_def)

lemma ready_iff:
  "ready s \<longleftrightarrow> clockReady s \<and> chordGroups s = buildChordGroups (grid s)
     \<and> stepSequence s = chordGroups s
     \<and> (\<exists>g. cy s = Some g \<and> eventIds (chordGroups s) \<subseteq> dom (nodes g))"
  by (cases "cy s") (auto simp: ready_def)

lemma ready_transfer:
  assumes "ready s" "clockReady s'" "grid s' = grid s" "chordGroups s' = chordGroups s"
    "stepSequence s' = stepSequence s"
    "\<And>g. cy s = Some g \<Longrightarrow> \<exists>g'. cy s' = Some g' \<and> dom (nodes g') = dom (nodes g)"
  shows "ready s'"
proof -
  from assms(1) obtain g where g: "cy s = Some g" "eventIds (chordGroups s) \<subseteq> dom (nodes g)"
    and r: "chordGroups s = buildChordGroups (grid s)" "stepSequence s = chordGroups s"
    by (auto simp: ready_iff)
  from assms(6) [OF g(1)] obtain g' where "cy s' = Some g'" "dom (nodes g') = dom (nodes g)" by blast
  with g r assms(2-5) show ?thesis by (auto simp: ready_iff)
qed

lemma updateGraph_ready:
  assumes c: "cy s = Some g" and k: "clockReady s"
  shows "\<exists>s'. updateGraph s = Some s' \<and> ready s'"
proof -
  let ?L = "buildChordGroups (grid s)"
  from updateGraph_result [OF c] obtain g' where
    u: "updateGraph s = Some (s\<lparr>chordGroups := ?L, stepSequence := ?L, prevPlayingNodes := [],
          cy := Some g'\<rparr>)"
    and d: "dom (nodes g') = (dom (nodes g) \<inter> {BALL}) \<union> eventIds ?L"
    by blast
  have "ready (s\<lparr>chordGroups := ?L, stepSequence := ?L, prevPlayingNodes := [], cy := Some g'\<rparr>)"
    using k d by (simp add: ready_iff clockReady_def)
  with u show ?thesis by simp
qed

lemma startup_ready: "ready (startup w h)"
proof -
  have "buildChordGroups emptyGrid = []"
    by (simp add: buildChordGroups_eq activePitches_def cell_def emptyGrid_def)
  then show ?thesis
    using getStepArray_nonempty [of "''forward''"]
    by (simp add: ready_iff clockReady_def startup_def initGraph_def initSynth_def buildLoop_def
        initialState_def Let_def eventIds_def)
qed

lemma handle_ready:
  assumes r: "ready s"
  shows "\<exists>s'. handle e s = Some s' \<and> ready s'"
proof -
  from r obtain g where c: "cy s = Some g" and k: "clockReady s"
    and ev: "eventIds (chordGroups s) \<subseteq> dom (nodes g)"
    and cg: "chordGroups s = buildChordGroups (grid s)" and sq: "stepSequence s = chordGroups s"
    by (auto simp: ready_iff)
  show ?thesis
  proof (cases e)
    case (CellClick nt st)
    have "cy (s\<lparr>grid := toggleCell nt st (grid s)\<rparr>) = Some g"
      "clockReady (s\<lparr>grid := toggleCell nt st (grid s)\<rparr>)"
      using c k by (simp_all add: clockReady_def)
    from updateGraph_ready [OF this] show ?thesis using CellClick by (simp add: onCellClick_def)
  next
    case ClearAll
    have "cy (s\<lparr>grid := clearGrid (grid s)\<rparr>) = Some g"
      "clockReady (s\<lparr>grid := clearGrid (grid s)\<rparr>)"
      using c k by (simp_all add: clockReady_def)
    from updateGraph_ready [OF this] show ?thesis using ClearAll by (simp add: clearAll_def)
  next
    case (Play f)
    have "ready (play f s)"
      by (rule ready_transfer [OF r]) (use k in \<open>simp_all add: play_def clockReady_def\<close>)
    then show ?thesis using Play by simp
  next
    case Stop
    have "ready (stop s)"
    proof (rule ready_transfer [OF r])
      show "clockReady (stop s)" by (rule stop_clockReady [OF k])
      fix g0 assume "cy s = Some g0"
      from stop_frame [OF this] show "\<exists>g'. cy (stop s) = Some g' \<and> dom (nodes g') = dom (nodes g0)"
        by (auto dest: frame_dom)
    qed (simp_all add: stop_keeps)
    then show ?thesis using Stop by simp
  next
    case (SetPlaybackMode m)
    have "ready (setPlaybackMode m s)"
      by (rule ready_transfer [OF r])
        (simp_all add: setPlaybackMode_keeps setPlaybackMode_clockReady [OF k])
    then show ?thesis using SetPlaybackMode by simp
  next
    case (SetBPM v)
    have "ready (setBPM v s)"
      by (rule ready_transfer [OF r])
        (use k in \<open>simp_all add: setBPM_def clockReady_def split: option.splits\<close>)
    then show ?thesis using SetBPM by simp
  next
    case (Tick t)
    from tick_ready [OF k, of t] obtain s' effs where
      t: "tick t s = Some (s', effs)" and k': "clockReady s'" and f: "cy s' = cy s"
      "grid s' = grid s" "chordGroups s' = chordGroups s" "stepSequence s' = stepSequence s"
      by blast
    have "ready s'"
      by (rule ready_transfer [OF r k']) (simp_all add: f)
    then show ?thesis using Tick t by simp
  next
    case (Visual a n)
    have "ready (visual a n s)"
    proof (rule ready_transfer [OF r])
      show "clockReady (visual a n s)"
        using k by (simp add: visual_def clockReady_def updateGraphPlayhead_keeps)
      fix g0 assume "cy s = Some g0"
      then have "cy (s\<lparr>playhead := Some a\<rparr>) = Some g0" by simp
      from updateGraphPlayhead_frame [OF this, of a n]
      show "\<exists>g'. cy (visual a n s) = Some g' \<and> dom (nodes g') = dom (nodes g0)"
        by (auto simp: visual_def dest: frame_dom)
    qed (simp_all add: visual_def updateGraphPlayhead_keeps)
    then show ?thesis using Visual by simp
  next
    case FitGraph
    from ev cg have "eventIds (buildChordGroups (grid s)) \<subseteq> dom (nodes g)" by simp
    from positionNodes_layout [OF this] obtain g' where
      p: "positionNodes (stepSequence s) (chordGroups s) g = Some g'"
      by (auto simp: sq cg)
    from frame_positionNodes [OF p] have d: "dom (nodes g') = dom (nodes g)" by (simp add: frame_def)
    have f: "fitGraph s = Some (s\<lparr>cy := Some g'\<rparr>)" using c p by (simp add: fitGraph_def)
    have "ready (s\<lparr>cy := Some g'\<rparr>)"
      by (rule ready_transfer [OF r]) (use k c d in \<open>simp_all add: clockReady_def\<close>)
    then show ?thesis using FitGraph f by simp
  next
    case (ContainerResize w hh)
    have "ready (s\<lparr>cy := map_option (\<lambda>g. g\<lparr>clientWidth := w, clientHeight := hh\<rparr>) (cy s)\<rparr>)"
      by (rule ready_transfer [OF r]) (use k in \<open>auto simp: clockReady_def\<close>)
    then show ?thesis using ContainerResize by simp
  qed
qed

lemma run_ready: "ready s \<Longrightarrow> \<exists>s'. run es s = Some s' \<and> ready s'"
proof (induction es arbitrary: s)
  case Nil
  then show ?case by simp
next
  case (Cons e es)
  from handle_ready [OF Cons.prems, of e] obtain s1 where "handle e s = Some s1" "ready s1" by blast
  with Cons.IH [of s1] show ?case by auto
qed

lemma no_chords_iff:
  "buildChordGroups G = [] \<longleftrightarrow> (\<forall>st < STEPS. \<forall>nt \<in> set NOTES. \<not> cell G nt st)"
  by (auto simp: buildChordGroups_eq activePitches_def filter_empty_conv)


subsection \<open>The visual update of a tick\<close>

lemma indexOf_first:
  "x \<in> set xs \<Longrightarrow> \<exists>j < length xs. indexOf xs x = int j \<and> xs ! j = x \<and> (\<forall>k < j. xs ! k \<noteq> x)"
proof (induction xs)
  case Nil
  then show ?case by simp
next
  case (Cons y ys)
  show ?case
  proof (cases "y = x")
    case True
    then show ?thesis by (intro exI [of _ 0]) simp
  next
    case False
    with Cons obtain j where j: "j < length ys" "indexOf ys x = int j" "ys ! j = x"
      "\<forall>k < j. ys ! k \<noteq> x" by auto
    show ?thesis
    proof (intro exI [of _ "Suc j"] conjI allI impI)
      show "Suc j < length (y # ys)" using j(1) by simp
      show "indexOf (y # ys) x = int (Suc j)" using False j(2) by simp
      show "(y # ys) ! Suc j = x" using j(3) by simp
      fix k assume "k < Suc j"
      then show "(y # ys) ! k \<noteq> x" using False j(4) by (cases k) auto
    qed
  qed
qed

lemma ball_chain_pose:
  "nodes g BALL = Some nd \<Longrightarrow>
   map_option pose (nodes (animate BALL q dur (setOpacity BALL v (setPosition BALL p (stopNode BALL g)))) BALL)
     = Some (p, Some v, Some (q, dur))"
  by (simp add: animate_def setOpacity_def setPosition_def stopNode_def pose_def)

lemma pose_same:
  assumes "map_option pose (nodes g' j) = map_option pose (nodes g j)" "nodes g j = Some nd"
  shows "\<exists>nd'. nodes g' j = Some nd' \<and> position nd' = position nd \<and> pose nd' = pose nd"
  using assms by (cases "nodes g' j") (auto simp: pose_def)

lemma updateGraphPlayhead_rest:
  assumes "cy s = Some g" "map_of (chordGroups s) step = None"
  shows "updateGraphPlayhead step nxt s =
     s\<lparr>cy := Some (fold (removeClass ''playing'') (prevPlayingNodes s) g), prevPlayingNodes := []\<rparr>"
  using assms by (simp add: updateGraphPlayhead_def Let_def)

lemma updateGraphPlayhead_chord:
  assumes "cy s = Some g" "map_of (chordGroups s) step = Some src"
    and "highlight (nodeIds src) (fold (removeClass ''playing'') (prevPlayingNodes s) g) = (g2, prev)"
  shows "updateGraphPlayhead step nxt s =
     (if nodes g2 BALL = None \<or> length (stepSequence s) < 2
      then s\<lparr>cy := Some g2, prevPlayingNodes := prev\<rparr>
      else
        (case findTarget (chordGroups s) (activeStepArray s) (indexOf (activeStepArray s) nxt) 0 of
           None \<Rightarrow> s\<lparr>cy := Some g2, prevPlayingNodes := prev\<rparr>
         | Some (tgt, d) \<Rightarrow>
             (case (nodes g2 (anchorId src), nodes g2 (anchorId tgt)) of
                (Some srcNode, Some tgtNode) \<Rightarrow>
                  s\<lparr>cy := Some (animate BALL (position tgtNode) (real (max d 1) * ((60 / bpm s / 4) * 1000))
                          (setOpacity BALL 1 (setPosition BALL (position srcNode) (stopNode BALL g2)))),
                    prevPlayingNodes := prev\<rparr>
              | _ \<Rightarrow> s\<lparr>cy := Some g2, prevPlayingNodes := prev\<rparr>)))"
  using assms
  by (simp add: updateGraphPlayhead_def Let_def split: option.splits prod.splits)

lemma updateGraph_keeps:
  assumes "updateGraph s = Some s'" "cy s = Some g"
  shows "bpm s' = bpm s" "activeStepArray s' = activeStepArray s" "seqPosition s' = seqPosition s"
    "prevPlayingNodes s' = []" "grid s' = grid s"
proof -
  from updateGraph_result [OF assms(2)] assms(1) obtain g' where
    "s' = s\<lparr>chordGroups := buildChordGroups (grid s), stepSequence := buildChordGroups (grid s),
         prevPlayingNodes := [], cy := Some g'\<rparr>"
    by auto
  then show "bpm s' = bpm s" "activeStepArray s' = activeStepArray s" "seqPosition s' = seqPosition s"
    "prevPlayingNodes s' = []" "grid s' = grid s"
    by simp_all
qed


subsection \<open>The class \<^verbatim>\<open>playing\<close>\<close>

lemma hasClass_updNode:
  "hasClass c (updNode i f g) j =
     (case nodes g j of None \<Rightarrow> False
      | Some nd \<Rightarrow> c \<in> set (classes (if j = i then f nd else nd)))"
  by (auto simp: hasClass_def split: option.splits)

lemma hasClass_removeClass:
  "hasClass c (removeClass c i g) j \<longleftrightarrow> hasClass c g j \<and> j \<noteq> i"
  by (cases "nodes g j") (auto simp: hasClass_updNode removeClass_def hasClass_def)

lemma hasClass_fold_removeClass:
  "hasClass c (fold (removeClass c) ids g) j \<longleftrightarrow> hasClass c g j \<and> j \<notin> set ids"
  by (induction ids arbitrary: g) (auto simp: hasClass_removeClass)

lemma hasClass_addClass:
  "hasClass c (addClass c i g) j \<longleftrightarrow> hasClass c g j \<or> (j = i \<and> nodes g j \<noteq> None)"
  by (cases "nodes g j") (auto simp: hasClass_updNode addClass_def hasClass_def)

lemma present_addClass: "nodes (addClass c i g) j = None \<longleftrightarrow> nodes g j = None"
  by (simp add: addClass_def)

lemma present_fold_addClass: "nodes (fold (addClass c) ids g) j = None \<longleftrightarrow> nodes g j = None"
  by (induction ids arbitrary: g) (simp_all add: present_addClass)

lemma hasClass_fold_addClass:
  "hasClass c (fold (addClass c) ids g) j \<longleftrightarrow>
     hasClass c g j \<or> (j \<in> set ids \<and> nodes g j \<noteq> None)"
proof (induction ids arbitrary: g)
  case Nil
  then show ?case by simp
next
  case (Cons a ids)
  have "hasClass c (fold (addClass c) (a # ids) g) j =
      hasClass c (fold (addClass c) ids (addClass c a g)) j" by simp
  also have "\<dots> = (hasClass c (addClass c a g) j \<or>
      (j \<in> set ids \<and> nodes (addClass c a g) j \<noteq> None))" by (rule Cons.IH)
  also have "\<dots> = (hasClass c g j \<or> (j \<in> set (a # ids) \<and> nodes g j \<noteq> None))"
    unfolding hasClass_addClass present_addClass by auto
  finally show ?case .
qed

lemma hasClass_ball_chain:
  "hasClass c (animate i q dur (setOpacity i v (setPosition i p (stopNode i g)))) j = hasClass c g j"
  by (auto simp: hasClass_def animate_def setOpacity_def setPosition_def stopNode_def
      split: option.splits)

text \<open>When all nodes of the chord are in the graph, all of them are highlighted.\<close>

lemma highlight_fold_present:
  "\<forall>i \<in> set ids. nodes g i \<noteq> None \<Longrightarrow>
   fold highlightNode ids (g, acc) = (fold (addClass ''playing'') ids g, acc @ ids)"
proof (induction ids arbitrary: g acc)
  case Nil
  then show ?case by simp
next
  case (Cons i ids)
  have "\<forall>k \<in> set ids. nodes (addClass ''playing'' i g) k \<noteq> None"
    using Cons.prems by (simp add: present_addClass)
  from Cons.IH [OF this] Cons.prems show ?case by (auto simp: highlightNode_pair)
qed

lemma highlight_present:
  "\<forall>i \<in> set ids. nodes g i \<noteq> None \<Longrightarrow>
   highlight ids g = (fold (addClass ''playing'') ids g, ids)"
  using highlight_fold_present [of ids g "[]"] by (simp add: highlight_def)

lemma present_fold_removeClass:
  "nodes (fold (removeClass c) ids g) j = None \<longleftrightarrow> nodes g j = None"
  by (rule present_pose) (use fold_removeClass in blast)

lemma indexOf_position:
  assumes "j < length xs" "xs ! j = x" "\<forall>k < j. xs ! k \<noteq> x"
  shows "indexOf xs x = int j"
proof -
  have "x \<in> set xs" using assms(1,2) by auto
  from indexOf_first [OF this] obtain j' where
    j': "j' < length xs" "indexOf xs x = int j'" "xs ! j' = x" "\<forall>k < j'. xs ! k \<noteq> x" by blast
  have "\<not> j' < j" using assms(3) j'(3) by blast
  moreover have "\<not> j < j'" using j'(4) assms(2) by blast
  ultimately show ?thesis using j'(2) by simp
qed


subsection \<open>The example states\<close>

lemma oneNoteState_run: "run [CellClick ''C4'' 0] (startup 400 380) = Some oneNoteState"
proof -
  from handle_ready [OF startup_ready, of "CellClick ''C4'' 0" 400 380]
  obtain s' where "onCellClick ''C4'' 0 (startup 400 380) = Some s'" by auto
  then show ?thesis by (simp add: oneNoteState_def)
qed

lemma oneNoteState_ready: "ready oneNoteState"
  using run_ready [OF startup_ready, of "[CellClick ''C4'' 0]" 400 380]
  unfolding oneNoteState_run by simp

lemma one_note_cells:
  "cell (toggleCell ''C4'' 0 emptyGrid) n s \<longleftrightarrow> n = ''C4'' \<and> s = 0"
  by (auto simp: toggleCell_def emptyGrid_def cell_def STEPS_def nth_list_update
      nth_Cons' split: if_splits)

lemma one_note_groups:
  "buildChordGroups (toggleCell ''C4'' 0 emptyGrid) = [(0, chordAt (toggleCell ''C4'' 0 emptyGrid) 0)]"
proof -
  have "activePitches (toggleCell ''C4'' 0 emptyGrid) s \<noteq> [] \<longleftrightarrow> s = 0" for s
    by (auto simp: activePitches_def one_note_cells filter_empty_conv NOTES_def)
  then show ?thesis
    by (simp add: buildChordGroups_eq comp_def STEPS_def upt_16)
qed

lemma one_note_chord:
  "nodeIds (chordAt (toggleCell ''C4'' 0 emptyGrid) 0) = [''C4@0'']"
  "anchorId (chordAt (toggleCell ''C4'' 0 emptyGrid) 0) = ''C4@0''"
proof -
  have "activePitches (toggleCell ''C4'' 0 emptyGrid) 0 = [''C4'']"
    by (simp add: activePitches_def one_note_cells NOTES_def)
  then show "nodeIds (chordAt (toggleCell ''C4'' 0 emptyGrid) 0) = [''C4@0'']"
    "anchorId (chordAt (toggleCell ''C4'' 0 emptyGrid) 0) = ''C4@0''"
    by (simp_all add: chordAt_fields eventId_def string_of_nat_0)
qed

lemma oneNoteState_graph:
  "\<exists>g b. cy oneNoteState = Some g \<and> nodes g BALL = Some b \<and> ''C4@0'' \<in> dom (nodes g)"
proof -
  from startup_ball [of 400 380] obtain g0 where
    "cy (startup 400 380) = Some g0" "nodes g0 BALL \<noteq> None" by blast
  from run_ball [OF oneNoteState_run this] obtain g where
    g: "cy oneNoteState = Some g" "nodes g BALL \<noteq> None" by blast
  from oneNoteState_ready g(1) have "eventIds (buildChordGroups (grid oneNoteState)) \<subseteq> dom (nodes g)"
    by (auto simp: ready_iff)
  then have "''C4@0'' \<in> dom (nodes g)"
    by (simp add: oneNoteState_fields(2) one_note_groups eventIds_def one_note_chord)
  with g show ?thesis by auto
qed

lemma clearGrid_cells: "st < STEPS \<Longrightarrow> nt \<in> set NOTES \<Longrightarrow> \<not> cell (clearGrid G) nt st"
  by (simp add: clearGrid_def cell_def nth_append)


lemma startup_bpm: "bpm (startup w h) = 120"
  by (simp add: startup_def initGraph_def initSynth_def buildLoop_def initialState_def Let_def)

lemma oneNoteState_click: "onCellClick ''C4'' 0 (startup 400 380) = Some oneNoteState"
  using oneNoteState_run by (simp split: option.splits)

lemma oneNoteState_clock:
  "bpm oneNoteState = 120" "activeStepArray oneNoteState = [0..<16]"
  "prevPlayingNodes oneNoteState = []"
proof -
  from startup_fields(2) [of 400 380] obtain g where "cy (startup 400 380) = Some g" by auto
  then have c: "cy ((startup 400 380)\<lparr>grid := toggleCell ''C4'' 0 (grid (startup 400 380))\<rparr>) = Some g"
    by simp
  note k = updateGraph_keeps [OF oneNoteState_click [unfolded onCellClick_def] c]
  show "bpm oneNoteState = 120" using k(1) by (simp add: startup_bpm)
  show "activeStepArray oneNoteState = [0..<16]"
    using k(2) by (simp add: startup_fields getStepArray_forward)
  show "prevPlayingNodes oneNoteState = []" by (rule k(4))
qed

lemma twoNoteState_run: "run [CellClick ''C4'' 8] oneNoteState = Some twoNoteState"
proof -
  from handle_ready [OF oneNoteState_ready, of "CellClick ''C4'' 8"]
  obtain s' where "onCellClick ''C4'' 8 oneNoteState = Some s'" by auto
  then show ?thesis by (simp add: twoNoteState_def)
qed

lemma twoNoteState_click: "onCellClick ''C4'' 8 oneNoteState = Some twoNoteState"
  using twoNoteState_run by (simp split: option.splits)

lemma twoNoteState_ready: "ready twoNoteState"
  using run_ready [OF oneNoteState_ready, of "[CellClick ''C4'' 8]"]
  unfolding twoNoteState_run by simp

lemma twoNoteState_fields:
  "bpm twoNoteState = 120" "activeStepArray twoNoteState = [0..<16]"
  "grid twoNoteState = toggleCell ''C4'' 8 (toggleCell ''C4'' 0 emptyGrid)"
  "chordGroups twoNoteState = buildChordGroups (toggleCell ''C4'' 8 (toggleCell ''C4'' 0 emptyGrid))"
  "stepSequence twoNoteState = buildChordGroups (toggleCell ''C4'' 8 (toggleCell ''C4'' 0 emptyGrid))"
proof -
  from oneNoteState_fields(1) obtain g where "cy oneNoteState = Some g" by auto
  then have c: "cy (oneNoteState\<lparr>grid := toggleCell ''C4'' 8 (grid oneNoteState)\<rparr>) = Some g"
    by simp
  note k = updateGraph_keeps [OF twoNoteState_click [unfolded onCellClick_def] c]
  show "bpm twoNoteState = 120" using k(1) by (simp add: oneNoteState_clock)
  show "activeStepArray twoNoteState = [0..<16]" using k(2) by (simp add: oneNoteState_clock)
  show g: "grid twoNoteState = toggleCell ''C4'' 8 (toggleCell ''C4'' 0 emptyGrid)"
    using k(5) by (simp add: oneNoteState_fields)
  from twoNoteState_ready
  show "chordGroups twoNoteState = buildChordGroups (toggleCell ''C4'' 8 (toggleCell ''C4'' 0 emptyGrid))"
    "stepSequence twoNoteState = buildChordGroups (toggleCell ''C4'' 8 (toggleCell ''C4'' 0 emptyGrid))"
    by (simp_all add: ready_iff g)
qed

lemma twoNoteState_graph: "\<exists>g b. cy twoNoteState = Some g \<and> nodes g BALL = Some b"
proof -
  from oneNoteState_graph obtain g0 b0 where
    "cy oneNoteState = Some g0" "nodes g0 BALL = Some b0" by blast
  then have "cy oneNoteState = Some g0" "nodes g0 BALL \<noteq> None" by simp_all
  from run_ball [OF twoNoteState_run this] show ?thesis by auto
qed

lemma highlightedState_fields:
  "chordGroups highlightedState = buildChordGroups (toggleCell ''C4'' 0 emptyGrid)"
  "prevPlayingNodes highlightedState = [''C4@0'']"
  "cy highlightedState \<noteq> None"
proof -
  let ?L = "buildChordGroups (toggleCell ''C4'' 0 emptyGrid)"
  let ?src = "chordAt (toggleCell ''C4'' 0 emptyGrid) 0"
  from oneNoteState_graph obtain g b where
    g: "cy oneNoteState = Some g" "nodes g BALL = Some b" "''C4@0'' \<in> dom (nodes g)" by blast
  from oneNoteState_ready have cg: "chordGroups oneNoteState = ?L" "stepSequence oneNoteState = ?L"
    by (simp_all add: ready_iff oneNoteState_fields)
  have m: "map_of (chordGroups oneNoteState) 0 = Some ?src"
    by (simp add: cg one_note_groups)
  from g(3) obtain nd where nd: "nodes g ''C4@0'' = Some nd" by auto
  have h: "highlight (nodeIds ?src) (fold (removeClass ''playing'') (prevPlayingNodes oneNoteState) g)
      = (addClass ''playing'' ''C4@0'' g, [''C4@0''])"
    by (simp add: one_note_chord oneNoteState_clock highlight_def highlightNode_pair nd)
  have u: "highlightedState =
      oneNoteState\<lparr>cy := Some (addClass ''playing'' ''C4@0'' g), prevPlayingNodes := [''C4@0'']\<rparr>"
    unfolding highlightedState_def updateGraphPlayhead_chord [OF g(1) m h]
    by (simp add: cg one_note_groups)
  show "chordGroups highlightedState = ?L" by (simp add: u cg)
  show "prevPlayingNodes highlightedState = [''C4@0'']" by (simp add: u)
  show "cy highlightedState \<noteq> None" by (simp add: u)
qed


text \<open>
  C9. In a graph with the marker: no event removes the node of the marker, and from
  start-up every sequence of events returns with the marker in the graph. A rebuild
  of the graph returns; afterwards the nodes are the marker and the event nodes of the
  grid's chords, so of the old nodes exactly those that are neither goes; the edges are
  the stack edges and sequence edges of the new chords, whatever the old edges were; the
  marker keeps its position and gets opacity 0 with no animation. When no cell of the
  grid is active, only the marker is left, there is no edge, and no fit of the viewport
  is asked for.
\<close>

theorem marker_is_permanent:
  assumes "cy s = Some g" and "nodes g BALL = Some b"
  shows "(\<forall>e s'. handle e s = Some s' \<longrightarrow> (\<exists>g'. cy s' = Some g' \<and> nodes g' BALL \<noteq> None))
     \<and> (\<forall>es. \<exists>s' g'. run es (startup w h) = Some s' \<and> cy s' = Some g' \<and> nodes g' BALL \<noteq> None)
     \<and> (\<exists>s' g'. updateGraph s = Some s' \<and> cy s' = Some g'
          \<and> dom (nodes g') = {BALL} \<union> eventIds (buildChordGroups (grid s))
          \<and> dom (nodes g) - dom (nodes g') = dom (nodes g) - {BALL} - eventIds (buildChordGroups (grid s))
          \<and> nodes g' BALL = Some (b\<lparr>animation := None, opacity := Some 0\<rparr>)
          \<and> edges g' = (if buildChordGroups (grid s) = [] then []
                        else stackEdges (buildChordGroups (grid s)) @ seqEdges (buildChordGroups (grid s)))
          \<and> ((\<forall>st < STEPS. \<forall>nt \<in> set NOTES. \<not> cell (grid s) nt st) \<longrightarrow>
                dom (nodes g') = {BALL} \<and> edges g' = [] \<and> fits g' = fits g))"
proof (intro conjI allI impI)
  fix e s' assume "handle e s = Some s'"
  from handle_ball [OF this assms(1)] assms(2)
  show "\<exists>g'. cy s' = Some g' \<and> nodes g' BALL \<noteq> None" by simp
next
  fix es
  from run_ready [OF startup_ready, of es w h] obtain s' where r: "run es (startup w h) = Some s'"
    by blast
  from startup_ball [of w h] obtain g0 where
    "cy (startup w h) = Some g0" "nodes g0 BALL \<noteq> None" by blast
  from run_ball [OF r this] r
  show "\<exists>s' g'. run es (startup w h) = Some s' \<and> cy s' = Some g' \<and> nodes g' BALL \<noteq> None"
    by blast
next
  let ?L = "buildChordGroups (grid s)"
  from updateGraph_result [OF assms(1)] obtain g' where
    u: "updateGraph s = Some (s\<lparr>chordGroups := ?L, stepSequence := ?L, prevPlayingNodes := [],
          cy := Some g'\<rparr>)"
    and e: "edges g' = (if ?L = [] then [] else stackEdges ?L @ seqEdges ?L)"
    and f: "fits g' = (if ?L = [] then fits g else fits g @ [40])"
    and d: "dom (nodes g') = (dom (nodes g) \<inter> {BALL}) \<union> eventIds ?L"
    and bl: "nodes g' BALL = map_option (\<lambda>nd. nd\<lparr>animation := None, opacity := Some 0\<rparr>) (nodes g BALL)"
    by blast
  have d': "dom (nodes g') = {BALL} \<union> eventIds ?L" using d assms(2) by auto
  have rm: "dom (nodes g) - dom (nodes g') = dom (nodes g) - {BALL} - eventIds ?L"
    unfolding d' by blast
  have z: "dom (nodes g') = {BALL} \<and> edges g' = [] \<and> fits g' = fits g"
    if "\<forall>st < STEPS. \<forall>nt \<in> set NOTES. \<not> cell (grid s) nt st"
  proof -
    from that have "?L = []" by (simp add: no_chords_iff)
    then show ?thesis using d' e f by (simp add: eventIds_def)
  qed
  show "\<exists>s' g'. updateGraph s = Some s' \<and> cy s' = Some g'
          \<and> dom (nodes g') = {BALL} \<union> eventIds ?L
          \<and> dom (nodes g) - dom (nodes g') = dom (nodes g) - {BALL} - eventIds ?L
          \<and> nodes g' BALL = Some (b\<lparr>animation := None, opacity := Some 0\<rparr>)
          \<and> edges g' = (if ?L = [] then [] else stackEdges ?L @ seqEdges ?L)
          \<and> ((\<forall>st < STEPS. \<forall>nt \<in> set NOTES. \<not> cell (grid s) nt st) \<longrightarrow>
                dom (nodes g') = {BALL} \<and> edges g' = [] \<and> fits g' = fits g)"
  proof (intro exI conjI impI)
    show "updateGraph s = Some (s\<lparr>chordGroups := ?L, stepSequence := ?L, prevPlayingNodes := [],
          cy := Some g'\<rparr>)" by (rule u)
    show "cy (s\<lparr>chordGroups := ?L, stepSequence := ?L, prevPlayingNodes := [],
          cy := Some g'\<rparr>) = Some g'" by simp
    show "dom (nodes g') = {BALL} \<union> eventIds ?L" by (rule d')
    show "dom (nodes g) - dom (nodes g') = dom (nodes g) - {BALL} - eventIds ?L" by (rule rm)
    show "nodes g' BALL = Some (b\<lparr>animation := None, opacity := Some 0\<rparr>)"
      using bl assms(2) by simp
    show "edges g' = (if ?L = [] then [] else stackEdges ?L @ seqEdges ?L)" by (rule e)
    assume a: "\<forall>st < STEPS. \<forall>nt \<in> set NOTES. \<not> cell (grid s) nt st"
    show "dom (nodes g') = {BALL}" using z [OF a] by (rule conjunct1)
    show "edges g' = []" using z [OF a] by simp
    show "fits g' = fits g" using z [OF a] by simp
  qed
qed

theorem marker_is_permanent_witness:
  "\<exists>g b s' g'. cy oneNoteState = Some g \<and> nodes g BALL = Some b \<and> ''C4@0'' \<in> dom (nodes g)
     \<and> clearAll oneNoteState = Some s' \<and> cy s' = Some g'
     \<and> dom (nodes g') = {BALL} \<and> edges g' = []
     \<and> nodes g' BALL = Some (b\<lparr>animation := None, opacity := Some 0\<rparr>)
     \<and> (\<exists>g''. cy (stop oneNoteState) = Some g'' \<and> nodes g'' BALL \<noteq> None)"
proof -
  from oneNoteState_graph obtain g b where
    g: "cy oneNoteState = Some g" "nodes g BALL = Some b" "''C4@0'' \<in> dom (nodes g)" by blast
  let ?s = "oneNoteState\<lparr>grid := clearGrid (grid oneNoteState)\<rparr>"
  have c: "cy ?s = Some g" using g(1) by simp
  have z: "\<forall>st < STEPS. \<forall>nt \<in> set NOTES. \<not> cell (grid ?s) nt st"
    by (simp add: clearGrid_cells)
  note m = marker_is_permanent [OF c g(2), of 400 380]
  from m [THEN conjunct2, THEN conjunct2] obtain s' g' where
    a: "updateGraph ?s = Some s'" "cy s' = Some g'"
      "nodes g' BALL = Some (b\<lparr>animation := None, opacity := Some 0\<rparr>)"
    and i: "(\<forall>st < STEPS. \<forall>nt \<in> set NOTES. \<not> cell (grid ?s) nt st) \<longrightarrow>
                dom (nodes g') = {BALL} \<and> edges g' = [] \<and> fits g' = fits g"
    by (elim exE conjE)
  from i z have k: "dom (nodes g') = {BALL}" "edges g' = []" by blast+
  note n = marker_is_permanent [OF g(1,2), of 400 380]
  from n [THEN conjunct1, rule_format, of Stop "stop oneNoteState"]
  have t: "\<exists>g''. cy (stop oneNoteState) = Some g'' \<and> nodes g'' BALL \<noteq> None"
    by simp
  have "clearAll oneNoteState = Some s'" using a(1) by (simp add: clearAll_def)
  with g a(2,3) k t show ?thesis by blast
qed


text \<open>
  C5 does not hold as it is stated: on a step without a chord the visual update still
  takes the class \<^verbatim>\<open>playing\<close> from the nodes of the tick before and empties
  \<^verbatim>\<open>prevPlayingNodes\<close>. After the update for step 0 of the grid with C4 on step 0, the
  update for the empty step 1 changes the state.
\<close>

theorem rest_step_clears_highlights:
  "\<not> has (chordGroups highlightedState) 1
   \<and> prevPlayingNodes highlightedState = [''C4@0'']
   \<and> prevPlayingNodes (updateGraphPlayhead 1 2 highlightedState) = []
   \<and> updateGraphPlayhead 1 2 highlightedState \<noteq> highlightedState"
proof -
  from highlightedState_fields(3) obtain g where g: "cy highlightedState = Some g" by auto
  have n: "map_of (chordGroups highlightedState) 1 = None"
    by (simp add: highlightedState_fields one_note_groups)
  have p: "prevPlayingNodes (updateGraphPlayhead 1 2 highlightedState) = []"
    unfolding updateGraphPlayhead_rest [OF g n] by simp
  have "updateGraphPlayhead 1 2 highlightedState \<noteq> highlightedState"
  proof
    assume "updateGraphPlayhead 1 2 highlightedState = highlightedState"
    with p have "prevPlayingNodes highlightedState = []" by simp
    then show False by (simp add: highlightedState_fields)
  qed
  with n p show ?thesis by (simp add: has_def highlightedState_fields)
qed

text \<open>
  C5, amended. In a ready program with the marker in the graph, let the current step
  be in the active step order and let the next raw step stand at position \<open>j\<close> of it,
  with no earlier occurrence there. The update first takes the class \<^verbatim>\<open>playing\<close> from
  the nodes highlighted before. When the current step has no chord, that is all. When
  it has one, the nodes of that chord get the class and are remembered. With fewer than
  two chords the marker stays as it is. With at least two, the walk from position \<open>j\<close>
  on, around the step order, finds the first position with a chord, \<open>d\<close> ticks away with
  \<open>1 \<le> d\<close>; the marker is stopped, put on the anchor of the current chord with opacity
  1, and animated to the anchor of the chord found over \<open>d\<close> times the length of a
  sixteenth note in milliseconds.
\<close>

theorem traversal_animation:
  assumes r: "ready s" and c: "cy s = Some g" and b: "nodes g BALL = Some bl"
    and st: "step \<in> set (activeStepArray s)"
    and j: "j < length (activeStepArray s)" and nx: "activeStepArray s ! j = nxt"
    and first: "\<forall>k < j. activeStepArray s ! k \<noteq> nxt"
  shows "(\<not> has (chordGroups s) step \<longrightarrow>
           updateGraphPlayhead step nxt s =
             s\<lparr>cy := Some (fold (removeClass ''playing'') (prevPlayingNodes s) g),
               prevPlayingNodes := []\<rparr>
         \<and> (\<forall>i. hasClass ''playing'' (fold (removeClass ''playing'') (prevPlayingNodes s) g) i
                \<longleftrightarrow> hasClass ''playing'' g i \<and> i \<notin> set (prevPlayingNodes s)))
     \<and> (\<forall>src. map_of (chordGroups s) step = Some src \<longrightarrow>
          (\<exists>g'. updateGraphPlayhead step nxt s = s\<lparr>cy := Some g', prevPlayingNodes := nodeIds src\<rparr>
             \<and> (\<forall>i. hasClass ''playing'' g' i \<longleftrightarrow>
                    i \<in> set (nodeIds src)
                  \<or> (hasClass ''playing'' g i \<and> i \<notin> set (prevPlayingNodes s)))
             \<and> (if length (stepSequence s) < 2
                 then g' = fold (addClass ''playing'') (nodeIds src)
                             (fold (removeClass ''playing'') (prevPlayingNodes s) g)
                    \<and> map_option pose (nodes g' BALL) = Some (pose bl)
                 else (\<exists>tgt d p q.
                        1 \<le> d \<and> d \<le> length (activeStepArray s)
                      \<and> map_of (chordGroups s)
                            (activeStepArray s ! ((j + (d - 1)) mod length (activeStepArray s))) = Some tgt
                      \<and> (\<forall>k < d - 1. \<not> has (chordGroups s)
                            (activeStepArray s ! ((j + k) mod length (activeStepArray s))))
                      \<and> anchorPoint g src = Some p \<and> anchorPoint g tgt = Some q
                      \<and> g' = animate BALL q (real (max d 1) * ((60 / bpm s / 4) * 1000))
                               (setOpacity BALL 1 (setPosition BALL p (stopNode BALL
                                 (fold (addClass ''playing'') (nodeIds src)
                                    (fold (removeClass ''playing'') (prevPlayingNodes s) g)))))
                      \<and> map_option pose (nodes g' BALL) =
                          Some (p, Some 1, Some (q, real (max d 1) * ((60 / bpm s / 4) * 1000)))))))"
proof (intro conjI impI allI)
  assume "\<not> has (chordGroups s) step"
  then have "map_of (chordGroups s) step = None" by (simp add: has_def)
  from updateGraphPlayhead_rest [OF c this]
  show "updateGraphPlayhead step nxt s =
      s\<lparr>cy := Some (fold (removeClass ''playing'') (prevPlayingNodes s) g), prevPlayingNodes := []\<rparr>" .
next
  fix i
  show "hasClass ''playing'' (fold (removeClass ''playing'') (prevPlayingNodes s) g) i
      \<longleftrightarrow> hasClass ''playing'' g i \<and> i \<notin> set (prevPlayingNodes s)"
    by (rule hasClass_fold_removeClass)
next
  let ?arr = "activeStepArray s"
  let ?cgs = "chordGroups s"
  let ?n = "length ?arr"
  fix src assume m: "map_of ?cgs step = Some src"
  let ?g1 = "fold (removeClass ''playing'') (prevPlayingNodes s) g"
  let ?g2 = "fold (addClass ''playing'') (nodeIds src) ?g1"
  from r c have cg: "?cgs = buildChordGroups (grid s)" and sq: "stepSequence s = ?cgs"
    and ev: "eventIds (buildChordGroups (grid s)) \<subseteq> dom (nodes g)"
    by (auto simp: ready_iff)
  from m have ms: "(step, src) \<in> set (buildChordGroups (grid s))"
    unfolding cg by (rule map_of_SomeD)
  have pres: "\<forall>i \<in> set (nodeIds src). nodes g i \<noteq> None"
  proof
    fix i assume "i \<in> set (nodeIds src)"
    with ms have "i \<in> eventIds (buildChordGroups (grid s))" unfolding eventIds_def by blast
    with ev show "nodes g i \<noteq> None" by blast
  qed
  then have pres1: "\<forall>i \<in> set (nodeIds src). nodes ?g1 i \<noteq> None"
    by (simp add: present_fold_removeClass)
  have hl: "highlight (nodeIds src) ?g1 = (?g2, nodeIds src)"
    by (rule highlight_present [OF pres1])
  have pg: "map_option pose (nodes ?g2 i) = map_option pose (nodes g i)" for i
    using highlight_result(2) [of "nodeIds src" ?g1 i]
      fold_removeClass [of "''playing''" "prevPlayingNodes s" g]
    by (simp add: hl)
  from pose_same [OF pg b] obtain bl2 where b2: "nodes ?g2 BALL = Some bl2" "pose bl2 = pose bl"
    by blast
  have cls: "hasClass ''playing'' ?g2 i \<longleftrightarrow>
      i \<in> set (nodeIds src) \<or> (hasClass ''playing'' g i \<and> i \<notin> set (prevPlayingNodes s))" for i
    unfolding hasClass_fold_addClass hasClass_fold_removeClass using pres1 by blast
  have anchor: "\<exists>nd nd2. nodes g (anchorId grp) = Some nd \<and> nodes ?g2 (anchorId grp) = Some nd2
      \<and> position nd2 = position nd"
    if "map_of ?cgs k = Some grp" for k grp
  proof -
    from that have "(k, grp) \<in> set (buildChordGroups (grid s))"
      unfolding cg by (rule map_of_SomeD)
    with groups_layout_ready [OF ev] have "nodes g (anchorId grp) \<noteq> None" by blast
    then obtain nd where nd: "nodes g (anchorId grp) = Some nd" by auto
    from pose_same [OF pg nd] nd show ?thesis by blast
  qed
  note u = updateGraphPlayhead_chord [OF c m hl, of nxt]
  show "\<exists>g'. updateGraphPlayhead step nxt s = s\<lparr>cy := Some g', prevPlayingNodes := nodeIds src\<rparr>
             \<and> (\<forall>i. hasClass ''playing'' g' i \<longleftrightarrow>
                    i \<in> set (nodeIds src)
                  \<or> (hasClass ''playing'' g i \<and> i \<notin> set (prevPlayingNodes s)))
             \<and> (if length (stepSequence s) < 2
                 then g' = ?g2 \<and> map_option pose (nodes g' BALL) = Some (pose bl)
                 else (\<exists>tgt d p q.
                        1 \<le> d \<and> d \<le> ?n
                      \<and> map_of ?cgs (?arr ! ((j + (d - 1)) mod ?n)) = Some tgt
                      \<and> (\<forall>k < d - 1. \<not> has ?cgs (?arr ! ((j + k) mod ?n)))
                      \<and> anchorPoint g src = Some p \<and> anchorPoint g tgt = Some q
                      \<and> g' = animate BALL q (real (max d 1) * ((60 / bpm s / 4) * 1000))
                               (setOpacity BALL 1 (setPosition BALL p (stopNode BALL ?g2)))
                      \<and> map_option pose (nodes g' BALL) =
                          Some (p, Some 1, Some (q, real (max d 1) * ((60 / bpm s / 4) * 1000)))))"
  proof (cases "length (stepSequence s) < 2")
    case True
    then have v: "updateGraphPlayhead step nxt s = s\<lparr>cy := Some ?g2, prevPlayingNodes := nodeIds src\<rparr>"
      unfolding u by simp
    show ?thesis
    proof (intro exI [of _ ?g2] conjI allI)
      show "updateGraphPlayhead step nxt s = s\<lparr>cy := Some ?g2, prevPlayingNodes := nodeIds src\<rparr>"
        by (rule v)
      show "hasClass ''playing'' ?g2 i \<longleftrightarrow>
          i \<in> set (nodeIds src) \<or> (hasClass ''playing'' g i \<and> i \<notin> set (prevPlayingNodes s))" for i
        by (rule cls)
      show "if length (stepSequence s) < 2
          then ?g2 = ?g2 \<and> map_option pose (nodes ?g2 BALL) = Some (pose bl)
          else (\<exists>tgt d p q.
                        1 \<le> d \<and> d \<le> ?n
                      \<and> map_of ?cgs (?arr ! ((j + (d - 1)) mod ?n)) = Some tgt
                      \<and> (\<forall>k < d - 1. \<not> has ?cgs (?arr ! ((j + k) mod ?n)))
                      \<and> anchorPoint g src = Some p \<and> anchorPoint g tgt = Some q
                      \<and> ?g2 = animate BALL q (real (max d 1) * ((60 / bpm s / 4) * 1000))
                               (setOpacity BALL 1 (setPosition BALL p (stopNode BALL ?g2)))
                      \<and> map_option pose (nodes ?g2 BALL) =
                          Some (p, Some 1, Some (q, real (max d 1) * ((60 / bpm s / 4) * 1000))))"
        using True b2 by simp
    qed
  next
    case False
    from indexOf_position [OF j nx first] have ix: "indexOf ?arr nxt = int j" .
    from m have "map_of ?cgs step \<noteq> None" by simp
    from findTarget_finds [OF j st this] obtain tgt d where
      f: "findTarget ?cgs ?arr (int j) 0 = Some (tgt, d)" by blast
    from findTarget_Some [OF j f] have d: "0 < d" "d \<le> ?n"
      and t: "map_of ?cgs (?arr ! ((j + (d - 1)) mod ?n)) = Some tgt"
      and l: "\<forall>k. 0 \<le> k \<and> k < d - 1 \<longrightarrow> map_of ?cgs (?arr ! ((j + k) mod ?n)) = None"
      by blast+
    from anchor [OF m] obtain a a2 where a: "nodes g (anchorId src) = Some a"
      "nodes ?g2 (anchorId src) = Some a2" "position a2 = position a" by blast
    from anchor [OF t] obtain e e2 where e: "nodes g (anchorId tgt) = Some e"
      "nodes ?g2 (anchorId tgt) = Some e2" "position e2 = position e" by blast
    let ?dur = "real (max d 1) * ((60 / bpm s / 4) * 1000)"
    let ?g6 = "animate BALL (position e) ?dur
                 (setOpacity BALL 1 (setPosition BALL (position a) (stopNode BALL ?g2)))"
    have v: "updateGraphPlayhead step nxt s = s\<lparr>cy := Some ?g6, prevPlayingNodes := nodeIds src\<rparr>"
      unfolding u using False b2(1) by (simp add: ix f a e)
    have bp: "map_option pose (nodes ?g6 BALL) = Some (position a, Some 1, Some (position e, ?dur))"
      by (rule ball_chain_pose [OF b2(1)])
    have found: "\<exists>tgt d p q.
                        1 \<le> d \<and> d \<le> ?n
                      \<and> map_of ?cgs (?arr ! ((j + (d - 1)) mod ?n)) = Some tgt
                      \<and> (\<forall>k < d - 1. \<not> has ?cgs (?arr ! ((j + k) mod ?n)))
                      \<and> anchorPoint g src = Some p \<and> anchorPoint g tgt = Some q
                      \<and> ?g6 = animate BALL q (real (max d 1) * ((60 / bpm s / 4) * 1000))
                               (setOpacity BALL 1 (setPosition BALL p (stopNode BALL ?g2)))
                      \<and> map_option pose (nodes ?g6 BALL) =
                          Some (p, Some 1, Some (q, real (max d 1) * ((60 / bpm s / 4) * 1000)))"
    proof (intro exI conjI allI impI)
      show "1 \<le> d" using d(1) by simp
      show "d \<le> ?n" by (rule d(2))
      show "map_of ?cgs (?arr ! ((j + (d - 1)) mod ?n)) = Some tgt" by (rule t)
      show "\<not> has ?cgs (?arr ! ((j + k) mod ?n))" if "k < d - 1" for k
        using l that by (simp add: has_def)
      show "anchorPoint g src = Some (position a)" by (simp add: anchorPoint_def a)
      show "anchorPoint g tgt = Some (position e)" by (simp add: anchorPoint_def e)
      show "?g6 = ?g6" by (rule refl)
      show "map_option pose (nodes ?g6 BALL) = Some (position a, Some 1, Some (position e, ?dur))"
        by (rule bp)
    qed
    show ?thesis
    proof (intro exI [of _ ?g6] conjI allI)
      show "updateGraphPlayhead step nxt s = s\<lparr>cy := Some ?g6, prevPlayingNodes := nodeIds src\<rparr>"
        by (rule v)
      show "hasClass ''playing'' ?g6 i \<longleftrightarrow>
          i \<in> set (nodeIds src) \<or> (hasClass ''playing'' g i \<and> i \<notin> set (prevPlayingNodes s))" for i
        unfolding hasClass_ball_chain by (rule cls)
      show "if length (stepSequence s) < 2
          then ?g6 = ?g2 \<and> map_option pose (nodes ?g6 BALL) = Some (pose bl)
          else (\<exists>tgt d p q.
                        1 \<le> d \<and> d \<le> ?n
                      \<and> map_of ?cgs (?arr ! ((j + (d - 1)) mod ?n)) = Some tgt
                      \<and> (\<forall>k < d - 1. \<not> has ?cgs (?arr ! ((j + k) mod ?n)))
                      \<and> anchorPoint g src = Some p \<and> anchorPoint g tgt = Some q
                      \<and> ?g6 = animate BALL q (real (max d 1) * ((60 / bpm s / 4) * 1000))
                               (setOpacity BALL 1 (setPosition BALL p (stopNode BALL ?g2)))
                      \<and> map_option pose (nodes ?g6 BALL) =
                          Some (p, Some 1, Some (q, real (max d 1) * ((60 / bpm s / 4) * 1000))))"
        using False found by (simp only: if_False)
    qed
  qed
qed


theorem traversal_animation_witness:
  "\<exists>g g' g1 p q bl.
      cy twoNoteState = Some g \<and> nodes g BALL = Some bl
    \<and> map_of (chordGroups twoNoteState) 0 =
        Some (chordAt (toggleCell ''C4'' 8 (toggleCell ''C4'' 0 emptyGrid)) 0)
    \<and> updateGraphPlayhead 0 1 twoNoteState =
        twoNoteState\<lparr>cy := Some g', prevPlayingNodes := [''C4@0'']\<rparr>
    \<and> hasClass ''playing'' g' ''C4@0''
    \<and> anchorPoint g (chordAt (toggleCell ''C4'' 8 (toggleCell ''C4'' 0 emptyGrid)) 0) = Some p
    \<and> anchorPoint g (chordAt (toggleCell ''C4'' 8 (toggleCell ''C4'' 0 emptyGrid)) 8) = Some q
    \<and> g' = animate BALL q 1000 (setOpacity BALL 1 (setPosition BALL p (stopNode BALL
              (fold (addClass ''playing'') [''C4@0'']
                 (fold (removeClass ''playing'') (prevPlayingNodes twoNoteState) g)))))
    \<and> map_option pose (nodes g' BALL) = Some (p, Some 1, Some (q, 1000))
    \<and> \<not> has (chordGroups twoNoteState) 3
    \<and> updateGraphPlayhead 3 4 twoNoteState =
        twoNoteState\<lparr>cy := Some (fold (removeClass ''playing'') (prevPlayingNodes twoNoteState) g),
                     prevPlayingNodes := []\<rparr>
    \<and> map_of (chordGroups oneNoteState) 0 = Some (chordAt (toggleCell ''C4'' 0 emptyGrid) 0)
    \<and> cy (updateGraphPlayhead 0 1 oneNoteState) = Some g1
    \<and> map_option pose (nodes g1 BALL) = map_option pose (nodes (the (cy oneNoteState)) BALL)"
proof -
  let ?G = "toggleCell ''C4'' 8 (toggleCell ''C4'' 0 emptyGrid)"
  let ?s = twoNoteState
  let ?arr = "activeStepArray ?s"
  let ?cgs = "chordGroups ?s"
  from twoNoteState_graph obtain g bl where g: "cy ?s = Some g" "nodes g BALL = Some bl" by blast
  have len: "length ?arr = 16" and nth: "\<And>m. m < 16 \<Longrightarrow> ?arr ! m = m"
    by (simp_all add: twoNoteState_fields)
  have mem: "0 \<in> set ?arr" "3 \<in> set ?arr"
    by (simp_all add: twoNoteState_fields)
  have pos1: "1 < length ?arr" "?arr ! 1 = 1" "\<forall>k < 1. ?arr ! k \<noteq> 1"
    by (simp_all add: twoNoteState_fields)
  have pos4: "4 < length ?arr" "?arr ! 4 = 4" "\<forall>k < 4. ?arr ! k \<noteq> 4"
    by (simp_all add: twoNoteState_fields)
  have hk: "map_of ?cgs x = (if x = 0 then Some (chordAt ?G 0) else if x = 8 then Some (chordAt ?G 8) else None)"
    for x
    by (simp add: twoNoteState_fields two_note_groups)
  have m0: "map_of ?cgs 0 = Some (chordAt ?G 0)" by (simp add: hk)
  have h3: "\<not> has ?cgs 3" and h8: "has ?cgs 8"
    by (simp_all add: has_def hk)
  have l2: "\<not> length (stepSequence ?s) < 2"
    by (simp add: twoNoteState_fields two_note_groups)
  have ids: "nodeIds (chordAt ?G 0) = [''C4@0'']"
  proof -
    have "activePitches ?G 0 = [''C4'']"
      by (simp add: activePitches_def two_note_cells NOTES_def)
    then show ?thesis by (simp add: chordAt_fields eventId_def string_of_nat_0)
  qed
  note T = traversal_animation [OF twoNoteState_ready g mem(1) pos1]
  from T [THEN conjunct2, rule_format, OF m0] obtain g' where
    u: "updateGraphPlayhead 0 1 ?s = ?s\<lparr>cy := Some g', prevPlayingNodes := nodeIds (chordAt ?G 0)\<rparr>"
    and cl: "\<forall>i. hasClass ''playing'' g' i \<longleftrightarrow>
        i \<in> set (nodeIds (chordAt ?G 0))
      \<or> (hasClass ''playing'' g i \<and> i \<notin> set (prevPlayingNodes ?s))"
    and i: "if length (stepSequence ?s) < 2
       then g' = fold (addClass ''playing'') (nodeIds (chordAt ?G 0))
                   (fold (removeClass ''playing'') (prevPlayingNodes ?s) g)
          \<and> map_option pose (nodes g' BALL) = Some (pose bl)
       else (\<exists>tgt d p q.
              1 \<le> d \<and> d \<le> length ?arr
            \<and> map_of ?cgs (?arr ! ((1 + (d - 1)) mod length ?arr)) = Some tgt
            \<and> (\<forall>k < d - 1. \<not> has ?cgs (?arr ! ((1 + k) mod length ?arr)))
            \<and> anchorPoint g (chordAt ?G 0) = Some p \<and> anchorPoint g tgt = Some q
            \<and> g' = animate BALL q (real (max d 1) * ((60 / bpm ?s / 4) * 1000))
                     (setOpacity BALL 1 (setPosition BALL p (stopNode BALL
                       (fold (addClass ''playing'') (nodeIds (chordAt ?G 0))
                          (fold (removeClass ''playing'') (prevPlayingNodes ?s) g)))))
            \<and> map_option pose (nodes g' BALL) =
                Some (p, Some 1, Some (q, real (max d 1) * ((60 / bpm ?s / 4) * 1000))))"
    by (elim exE conjE)
  from i [unfolded if_not_P [OF l2]] obtain tgt d p q where
    d: "1 \<le> d" "d \<le> length ?arr"
    and t: "map_of ?cgs (?arr ! ((1 + (d - 1)) mod length ?arr)) = Some tgt"
    and l: "\<forall>k < d - 1. \<not> has ?cgs (?arr ! ((1 + k) mod length ?arr))"
    and a: "anchorPoint g (chordAt ?G 0) = Some p" "anchorPoint g tgt = Some q"
    and ge: "g' = animate BALL q (real (max d 1) * ((60 / bpm ?s / 4) * 1000))
                     (setOpacity BALL 1 (setPosition BALL p (stopNode BALL
                       (fold (addClass ''playing'') (nodeIds (chordAt ?G 0))
                          (fold (removeClass ''playing'') (prevPlayingNodes ?s) g)))))"
    and bp: "map_option pose (nodes g' BALL) =
                Some (p, Some 1, Some (q, real (max d 1) * ((60 / bpm ?s / 4) * 1000)))"
    by (elim exE conjE)
  have t': "map_of ?cgs ((1 + (d - 1)) mod 16) = Some tgt"
    using t by (simp add: len nth)
  then have "(1 + (d - 1)) mod 16 = 0 \<or> (1 + (d - 1)) mod 16 = 8"
    unfolding hk by (simp split: if_splits)
  moreover have "1 + (d - 1) = d" using d(1) by simp
  ultimately have md: "d mod 16 = 0 \<or> d mod 16 = 8" by simp
  have dd: "d = 16 \<or> d = 8"
  proof (cases "d = 16")
    case True
    then show ?thesis by simp
  next
    case False
    with d(2) have "d < 16" by (simp add: len)
    then have "d mod 16 = d" by simp
    with md d(1) show ?thesis by simp
  qed
  have d8: "d = 8"
  proof (rule ccontr)
    assume "d \<noteq> 8"
    with dd have "d = 16" by simp
    then have "(7::nat) < d - 1" by simp
    with l have "\<not> has ?cgs (?arr ! ((1 + 7) mod length ?arr))" by blast
    then show False using h8 by (simp add: len nth)
  qed
  have tg: "tgt = chordAt ?G 8" using t' by (simp add: d8 hk)
  have dur: "real (max d 1) * ((60 / bpm ?s / 4) * 1000) = 1000"
    by (simp add: d8 twoNoteState_fields)
  have pl: "hasClass ''playing'' g' ''C4@0''" using cl by (simp add: ids)
  note R = traversal_animation [OF twoNoteState_ready g mem(2) pos4]
  from R [THEN conjunct1, rule_format, OF h3, THEN conjunct1]
  have rest: "updateGraphPlayhead 3 4 ?s =
      ?s\<lparr>cy := Some (fold (removeClass ''playing'') (prevPlayingNodes ?s) g), prevPlayingNodes := []\<rparr>" .
  from oneNoteState_graph obtain g0 b0 where
    g0: "cy oneNoteState = Some g0" "nodes g0 BALL = Some b0" by blast
  have mem1: "0 \<in> set (activeStepArray oneNoteState)"
    and q1: "1 < length (activeStepArray oneNoteState)" "activeStepArray oneNoteState ! 1 = 1"
      "\<forall>k < 1. activeStepArray oneNoteState ! k \<noteq> 1"
    by (simp_all add: oneNoteState_clock)
  from oneNoteState_ready have c1: "chordGroups oneNoteState = buildChordGroups (toggleCell ''C4'' 0 emptyGrid)"
    "stepSequence oneNoteState = buildChordGroups (toggleCell ''C4'' 0 emptyGrid)"
    by (simp_all add: ready_iff oneNoteState_fields)
  have o0: "map_of (chordGroups oneNoteState) 0 = Some (chordAt (toggleCell ''C4'' 0 emptyGrid) 0)"
    by (simp add: c1 one_note_groups)
  have l1: "length (stepSequence oneNoteState) < 2" by (simp add: c1 one_note_groups)
  note O = traversal_animation [OF oneNoteState_ready g0 mem1 q1]
  from O [THEN conjunct2, rule_format, OF o0] l1 obtain g1 where
    g1: "cy (updateGraphPlayhead 0 1 oneNoteState) = Some g1"
    "map_option pose (nodes g1 BALL) = Some (pose b0)"
    by auto
  have o: "map_option pose (nodes g1 BALL) = map_option pose (nodes (the (cy oneNoteState)) BALL)"
    by (simp add: g1 g0)
  from g m0 u pl a ge bp h3 rest o0 g1(1) o show ?thesis
    unfolding dur tg ids by blast
qed


text \<open>
  The walk in the descending half of ping-pong. There the next raw step stands in the
  step order a second time, and \<^verbatim>\<open>indexOf\<close> gives its position in the ascending half.
  With chords on the steps 0 and 8 and the cursor on position 23, which is step 8, the
  next raw step is 7; the walk starts at position 7 and finds the chord of step 8
  itself, 2 ticks away, while from position 24 the next chord in the order of play is
  that of step 0, 8 ticks away.
\<close>

lemma pingpong_walk_start:
  "getStepArray ''pingpong'' ! 23 = 8 \<and> getStepArray ''pingpong'' ! 24 = 7
   \<and> indexOf (getStepArray ''pingpong'') 7 = 7
   \<and> findTarget (buildChordGroups (toggleCell ''C4'' 8 (toggleCell ''C4'' 0 emptyGrid)))
        (getStepArray ''pingpong'') (indexOf (getStepArray ''pingpong'') 7) 0 =
      Some (chordAt (toggleCell ''C4'' 8 (toggleCell ''C4'' 0 emptyGrid)) 8, 2)
   \<and> findTarget (buildChordGroups (toggleCell ''C4'' 8 (toggleCell ''C4'' 0 emptyGrid)))
        (getStepArray ''pingpong'') 24 0 =
      Some (chordAt (toggleCell ''C4'' 8 (toggleCell ''C4'' 0 emptyGrid)) 0, 8)"
proof -
  let ?G = "toggleCell ''C4'' 8 (toggleCell ''C4'' 0 emptyGrid)"
  let ?arr = "[0, 1, 2, 3, 4, 5, 6, 7, 8, 9, 10, 11, 12, 13, 14, 15,
               15, 14, 13, 12, 11, 10, 9, 8, 7, 6, 5, 4, 3, 2, 1, 0::nat]"
  have arr: "getStepArray ''pingpong'' = ?arr"
    by (simp add: getStepArray_pingpong upt_16)
  have ix: "indexOf ?arr 7 = 7" by simp
  have hk: "map_of (buildChordGroups ?G) x =
      (if x = 0 then Some (chordAt ?G 0) else if x = 8 then Some (chordAt ?G 8) else None)" for x
    by (simp add: two_note_groups)
  have f1: "findTarget (buildChordGroups ?G) ?arr 7 0 = Some (chordAt ?G 8, 2)"
    by (simp add: findTarget.simps hk elemAt_def js_rem_def)
  have f2: "findTarget (buildChordGroups ?G) ?arr 24 0 = Some (chordAt ?G 0, 8)"
    by (simp add: findTarget.simps hk elemAt_def js_rem_def)
  show ?thesis unfolding arr ix using f1 f2 by simp
qed

end
